theory Spec2Isabelle
  imports Main "HOL-Library.Word"
begin

section \<open>The refractor: splitting a download across mirrors\<close>

text \<open>
  A shallow embedding of \<^verbatim>\<open>refractor/refractor.go\<close>. The handler state that the Go
  code mutates (the response writer, the \<^verbatim>\<open>sync.Pool\<close> of buffers) is passed
  explicitly; the mirror pool (\<^verbatim>\<open>pool.Pool.Do\<close>) is a parameter of the model, since
  it is an external collaborator; goroutines and their unbuffered channels are a
  small transition system driven by the order in which the fetches complete.
\<close>

subsection \<open>Machine integers and formatting\<close>

text \<open>
  \<^verbatim>\<open>int64\<close> values are integers with the two's complement wrap-around written out.
\<close>

definition wrap64 :: "int \<Rightarrow> int" where
  "wrap64 x = (x + 2 ^ 63) mod 2 ^ 64 - 2 ^ 63"

type_synonym byte = "8 word"

definition digit_char :: "nat \<Rightarrow> char" where
  "digit_char d = ''0123456789'' ! d"

fun digits :: "nat \<Rightarrow> string" where
  "digits n = (if n < 10 then [digit_char n] else digits (n div 10) @ [digit_char (n mod 10)])"

declare digits.simps [simp del]

text \<open>The \<^verbatim>\<open>%d\<close> verb of \<^verbatim>\<open>fmt\<close> (and \<^verbatim>\<open>fmt.Sprint\<close> of an integer): decimal, with a sign.\<close>

definition Sprint :: "int \<Rightarrow> string" where
  "Sprint i = (if i < 0 then ''-'' @ digits (nat (- i)) else digits (nat i))"


subsection \<open>Configuration\<close>

record Config =
  ChunkSize :: int
  ChunkTimeout :: int

definition defaultChunkSize :: int where
  "defaultChunkSize = 4 * 2 ^ 20"

definition defaultChunkTimeout :: int where
  "defaultChunkTimeout = 5 * 1000000000"

definition WithDefaults :: "Config \<Rightarrow> Config" where
  "WithDefaults c =
     (let c = (if ChunkSize c = 0 then c\<lparr>ChunkSize := defaultChunkSize\<rparr> else c);
          c = (if ChunkTimeout c = 0 then c\<lparr>ChunkTimeout := defaultChunkTimeout\<rparr> else c)
      in c)"

subsection \<open>Requests, responses and errors\<close>

datatype http_method = MethodGet | MethodHead

type_synonym header = "(string \<times> string) list"

text \<open>
  \<^verbatim>\<open>http.Header\<close>: \<^verbatim>\<open>Add\<close> appends a value under a key, \<^verbatim>\<open>Get\<close> returns the first
  value stored under the key, or the empty string. Both canonicalise the key in the
  same way, so keys are compared as written.
\<close>

definition Header_Add :: "header \<Rightarrow> string \<Rightarrow> string \<Rightarrow> header" where
  "Header_Add h k v = h @ [(k, v)]"

definition Header_Get :: "header \<Rightarrow> string \<Rightarrow> string" where
  "Header_Get h k = (case map_of h k of None \<Rightarrow> '''' | Some v \<Rightarrow> v)"

record request =
  Method :: http_method
  URL :: string
  Header :: header

text \<open>
  The errors of an attempt: the error \<^verbatim>\<open>Pool.Do\<close> returned; "got status \<open>got\<close>, expected
  \<open>expected\<close>"; the error \<^verbatim>\<open>io.Copy\<close> returned; "expected to read bytes \<open>declared\<close> but
  read \<open>n\<close> instead"; and the error of \<^verbatim>\<open>http.NewRequest\<close>.
\<close>

datatype error =
    DoErr string
  | StatusErr int int
  | CopyErr string
  | TruncatedErr int int
  | NewRequestErr

definition StatusOK :: int where "StatusOK = 200"
definition StatusPartialContent :: int where "StatusPartialContent = 206"
definition StatusInternalServerError :: int where "StatusInternalServerError = 500"
definition StatusBadGateway :: int where "StatusBadGateway = 502"

text \<open>
  What one exchange with a mirror yields when \<^verbatim>\<open>Pool.Do\<close> returns a response: the
  status, the declared content length (\<open>-1\<close> when unknown), the bytes the body
  delivers, and whether reading the body ends with an error (a reset connection, or
  the body closed by the deadline watcher) instead of the end of the stream.
\<close>

record upstream =
  up_StatusCode :: int
  up_ContentLength :: int
  up_wire :: "byte list"
  up_read_err :: "string option"

text \<open>
  The body of a response handed to a handler: the upstream body, already closed by
  the deferred \<^verbatim>\<open>Close\<close> (a probe), or a \<^verbatim>\<open>stats.ReaderWrapper\<close> over a pooled buffer.
\<close>

datatype body = ClosedUpstream | BufferBacked "byte list"

record response =
  StatusCode :: int
  ContentLength :: int
  Body :: body

record responseErr =
  err :: "error option"
  response :: "response option"

text \<open>
  The refractor and what it depends on: its configuration, whether
  \<^verbatim>\<open>http.NewRequest\<close> accepts a URL, and the mirror pool. \<open>Do rf r n\<close> is the outcome of
  the \<open>n\<close>-th attempt at request \<open>r\<close>; a deadline that expires before the headers
  arrive is one of its errors.
\<close>

record Refractor =
  config :: Config
  url_ok :: "string \<Rightarrow> bool"
  Do :: "request \<Rightarrow> nat \<Rightarrow> error + upstream"

definition NewRequest :: "Refractor \<Rightarrow> http_method \<Rightarrow> string \<Rightarrow> error + request" where
  "NewRequest rf m url =
     (if url_ok rf url then Inr \<lparr>Method = m, URL = url, Header = []\<rparr> else Inl NewRequestErr)"

subsection \<open>The state the handlers act on\<close>

text \<open>
  The \<^verbatim>\<open>sync.Pool\<close> of buffers holds the idle buffers with whatever bytes they
  still contain. The log records, in order, every call that leaves the refractor:
  an exchange with the mirror pool, the closing of an upstream body, and the
  operations on a pooled buffer.
\<close>

datatype event =
    EvDo request
  | EvClose
  | EvGet
  | EvReset
  | EvCopy nat
  | EvPut

record world =
  buffers :: "byte list list"
  events :: "event list"

definition emit :: "event \<Rightarrow> world \<Rightarrow> world" where
  "emit e w = w\<lparr>events := events w @ [e]\<rparr>"

text \<open>\<^verbatim>\<open>rf.buffers.Get()\<close>: an idle buffer, or a fresh one from \<^verbatim>\<open>New\<close>.\<close>

definition buffers_Get :: "world \<Rightarrow> byte list \<times> world" where
  "buffers_Get w =
     (case buffers w of
        [] \<Rightarrow> ([], emit EvGet w)
      | b # bs \<Rightarrow> (b, emit EvGet (w\<lparr>buffers := bs\<rparr>)))"

definition buffers_Put :: "byte list \<Rightarrow> world \<Rightarrow> world" where
  "buffers_Put buf w = emit EvPut (w\<lparr>buffers := buf # buffers w\<rparr>)"

definition Buffer_Reset :: "byte list \<Rightarrow> world \<Rightarrow> byte list \<times> world" where
  "Buffer_Reset buf w = ([], emit EvReset w)"

text \<open>
  \<^verbatim>\<open>io.Copy(buf, body)\<close>: appends what the body delivers to the buffer and returns the
  number of bytes copied and the read error, if any.
\<close>

definition io_Copy_buf ::
  "byte list \<Rightarrow> upstream \<Rightarrow> world \<Rightarrow> byte list \<times> int \<times> string option \<times> world" where
  "io_Copy_buf buf up w =
     (buf @ up_wire up, int (length (up_wire up)), up_read_err up,
      emit (EvCopy (length (up_wire up))) w)"

text \<open>
  \<^verbatim>\<open>http.ResponseWriter\<close>. The status is committed by the first \<^verbatim>\<open>WriteHeader\<close>, or
  as 200 by the first \<^verbatim>\<open>Write\<close>; a later \<^verbatim>\<open>WriteHeader\<close> changes nothing. \<open>room\<close> is
  the number of bytes the client connection still takes before a write fails
  (\<open>None\<close>: it never fails).
\<close>

record ResponseWriter =
  status :: "int option"
  rw_header :: header
  written :: "byte list"
  room :: "nat option"

definition WriteHeader :: "ResponseWriter \<Rightarrow> int \<Rightarrow> ResponseWriter" where
  "WriteHeader rw code = (if status rw = None then rw\<lparr>status := Some code\<rparr> else rw)"

definition Write :: "ResponseWriter \<Rightarrow> byte list \<Rightarrow> ResponseWriter \<times> bool" where
  "Write rw bs =
     (let rw = WriteHeader rw StatusOK in
      case room rw of
        None \<Rightarrow> (rw\<lparr>written := written rw @ bs\<rparr>, True)
      | Some m \<Rightarrow>
          if length bs \<le> m
          then (rw\<lparr>written := written rw @ bs, room := Some (m - length bs)\<rparr>, True)
          else (rw\<lparr>written := written rw @ take m bs, room := Some 0\<rparr>, False))"

text \<open>
  Modelled from the spec: \<^verbatim>\<open>stats.ReaderWrapper\<close> is not among the sources. The spec
  says of it that the completion callback "fires once the caller finishes reading
  the body, and the backing buffer is then returned to the Buffer Pool". So
  \<^verbatim>\<open>io.Copy(rw, body)\<close> on a buffer-backed body writes the buffered bytes to the
  client and, when all of them were taken, runs \<^verbatim>\<open>OnDone\<close>, which is
  \<^verbatim>\<open>rf.buffers.Put(buf)\<close> with the drained buffer; a copy that the client cuts short
  leaves the callback unfired. An empty body is read to its end without a
  \<^verbatim>\<open>Write\<close>. Reading a closed upstream body fails at once.
\<close>

definition io_Copy_rw :: "ResponseWriter \<Rightarrow> body \<Rightarrow> world \<Rightarrow> ResponseWriter \<times> bool \<times> world" where
  "io_Copy_rw rw b w =
     (case b of
        ClosedUpstream \<Rightarrow> (rw, False, w)
      | BufferBacked buf \<Rightarrow>
          if buf = [] then (rw, True, buffers_Put [] w)
          else (case Write rw buf of
                  (rw', ok) \<Rightarrow> (rw', ok, if ok then buffers_Put [] w else w)))"

text \<open>
  Modelled from the spec: \<^verbatim>\<open>Close\<close> of a \<^verbatim>\<open>stats.ReaderWrapper\<close>, which is not among
  the sources. The handler calls it only after the body was read to its end, when
  the callback has fired; the callback fires once, so closing returns no buffer.
\<close>

definition Body_Close :: "body \<Rightarrow> world \<Rightarrow> world" where
  "Body_Close b w = w"

subsection \<open>One attempt: request\<close>

definition expectedStatus :: "request \<Rightarrow> int" where
  "expectedStatus r =
     (if Header_Get (Header r) ''range'' \<noteq> [] then StatusPartialContent else StatusOK)"

text \<open>
  \<open>request rf r n w\<close> is the \<open>n\<close>-th attempt at \<open>r\<close>. The deferred
  \<^verbatim>\<open>response.Body.Close()\<close> is bound to the upstream body when the \<^verbatim>\<open>defer\<close> statement
  runs, so it closes the upstream body on every return that follows it. The
  deadline of the attempt shows as an error of \<open>Do\<close> or as a read error of the body.
\<close>

definition request :: "Refractor \<Rightarrow> request \<Rightarrow> nat \<Rightarrow> world \<Rightarrow> (error + response) \<times> world" where
  "request rf r n w =
     (let w = emit (EvDo r) w in
      case Do rf r n of
        Inl e \<Rightarrow> (Inl e, w)
      | Inr up \<Rightarrow>
          if up_StatusCode up \<noteq> expectedStatus r
          then (Inl (StatusErr (up_StatusCode up) (expectedStatus r)), emit EvClose w)
          else if Method r = MethodHead
          then (Inr \<lparr>StatusCode = up_StatusCode up, ContentLength = up_ContentLength up,
                     Body = ClosedUpstream\<rparr>, emit EvClose w)
          else
            (case buffers_Get w of (buf, w) \<Rightarrow>
             case Buffer_Reset buf w of (buf, w) \<Rightarrow>
             case io_Copy_buf buf up w of (buf, n, cerr, w) \<Rightarrow>
               (case cerr of
                  Some e \<Rightarrow> (Inl (CopyErr e), emit EvClose w)
                | None \<Rightarrow>
                    if n \<noteq> up_ContentLength up
                    then (Inl (TruncatedErr (up_ContentLength up) n), emit EvClose w)
                    else (Inr \<lparr>StatusCode = up_StatusCode up,
                               ContentLength = up_ContentLength up,
                               Body = BufferBacked buf\<rparr>, emit EvClose w))))"

subsection \<open>The retry loop: retryRequest\<close>

definition retries :: nat where
  "retries = 5"

text \<open>
  The body of the goroutine of \<^verbatim>\<open>retryRequest\<close>; \<open>tried\<close> is the variable \<^verbatim>\<open>try\<close>.
  The value it returns is the one value the goroutine sends on its channel.
\<close>

function retry_loop :: "Refractor \<Rightarrow> request \<Rightarrow> nat \<Rightarrow> world \<Rightarrow> responseErr \<times> world" where
  "retry_loop rf r tried w =
     (let tried = tried + 1 in
      case request rf r tried w of
        (Inl e, w) \<Rightarrow>
          if tried < retries then retry_loop rf r tried w
          else (\<lparr>err = Some e, response = None\<rparr>, w)
      | (Inr resp, w) \<Rightarrow> (\<lparr>err = None, response = Some resp\<rparr>, w))"
  by pat_completeness auto
termination
  by (relation "measure (\<lambda>(rf, r, tried, w). retries - tried)") auto

declare retry_loop.simps [simp del]

definition retryRequest :: "Refractor \<Rightarrow> request \<Rightarrow> world \<Rightarrow> responseErr \<times> world" where
  "retryRequest rf r w = retry_loop rf r 0 w"

subsection \<open>Handlers\<close>

text \<open>
  A goroutine started by \<^verbatim>\<open>retryRequest\<close> for the \<open>k\<close>-th channel is running its
  attempts, or blocked in the send on its unbuffered channel with its value, or
  done because the handler received the value.
\<close>

datatype goroutine = Running request | Sending responseErr | Delivered

text \<open>
  A handler has returned, or panicked on a nil dereference, or waits in a receive.
\<close>

datatype outcome = Returned | Panicked | Waiting

record sys =
  chans :: "goroutine list"
  todo :: "nat list"
  outcome :: outcome
  writer :: ResponseWriter
  store :: world

definition finish :: "outcome \<Rightarrow> ResponseWriter \<Rightarrow> world \<Rightarrow> sys" where
  "finish out rw w = \<lparr>chans = [], todo = [], outcome = out, writer = rw, store = w\<rparr>"

text \<open>
  The handlers take the URL of the incoming request as \<^verbatim>\<open>r.URL.String()\<close> gives it.
  In \<^verbatim>\<open>handlePlain\<close> the value of the channel is received as soon as the channel is
  made, so the goroutine runs to its send and the handler takes the value.
\<close>

definition handlePlain :: "Refractor \<Rightarrow> string \<Rightarrow> ResponseWriter \<Rightarrow> world \<Rightarrow> sys" where
  "handlePlain rf url rw w =
     (case NewRequest rf MethodGet url of
        Inl e \<Rightarrow> finish Returned (WriteHeader rw StatusInternalServerError) w
      | Inr req \<Rightarrow>
          (case retryRequest rf req w of (br, w) \<Rightarrow>
             if err br \<noteq> None then finish Returned (WriteHeader rw StatusBadGateway) w
             else (case response br of
                     None \<Rightarrow> finish Panicked rw w
                   | Some resp \<Rightarrow>
                       (case io_Copy_rw rw (Body resp) w of
                          (rw, ok, w) \<Rightarrow> finish Returned rw w))))"

subsection \<open>The partition loop of handleRefracted\<close>

definition range_value :: "int \<Rightarrow> int \<Rightarrow> string" where
  "range_value start end' = ''bytes='' @ Sprint start @ ''-'' @ Sprint end'"

definition ranged_request :: "request \<Rightarrow> int \<times> int \<Rightarrow> request" where
  "ranged_request req c =
     req\<lparr>Header := Header_Add (Header_Add (Header req) ''range'' (range_value (fst c) (snd c)))
                               ''accept-encoding'' ''identity''\<rparr>"

text \<open>
  The loop \<^verbatim>\<open>for start < size\<close>. It collects, in order, the inclusive range
  \<open>(start, end')\<close> and the request of every chunk fetch it launches. The flag says
  whether the loop ran to its end (\<open>True\<close>) or left the handler because a request could
  not be built. With a negative chunk size, or sizes near the top of \<^verbatim>\<open>int64\<close>, the
  loop does not end: the result is then \<open>None\<close>.
\<close>

partial_function (option) chunk_loop ::
  "Refractor \<Rightarrow> string \<Rightarrow> int \<Rightarrow> int \<Rightarrow> ((int \<times> int) \<times> request) list \<Rightarrow>
     (((int \<times> int) \<times> request) list \<times> bool) option"
where [code]:
  "chunk_loop rf url sz start launched =
     (if start < sz then
        (let end0 = wrap64 (start + ChunkSize (config rf));
             end' = (if end0 > sz then sz else end0)
         in case NewRequest rf MethodGet url of
              Inl e \<Rightarrow> Some (launched, False)
            | Inr req \<Rightarrow>
                chunk_loop rf url sz (wrap64 (end' + 1))
                  (launched @ [((start, end'), ranged_request req (start, end'))]))
      else Some (launched, True))"

subsection \<open>Reassembly\<close>

text \<open>
  The loop \<^verbatim>\<open>for _, rc := range responseChannels\<close>, from the channels still to visit.
  A receive from a channel whose goroutine has not reached its send blocks: the
  handler is then waiting, and goes on when that goroutine completes.
\<close>

fun reassemble :: "goroutine list \<Rightarrow> nat list \<Rightarrow> ResponseWriter \<Rightarrow> world \<Rightarrow> sys" where
  "reassemble gs [] rw w = \<lparr>chans = gs, todo = [], outcome = Returned, writer = rw, store = w\<rparr>"
| "reassemble gs (k # ks) rw w =
     (case gs ! k of
        Sending re \<Rightarrow>
          (if err re \<noteq> None
           then \<lparr>chans = gs[k := Delivered], todo = ks, outcome = Returned,
                 writer = WriteHeader rw StatusInternalServerError, store = w\<rparr>
           else (case response re of
                   None \<Rightarrow> \<lparr>chans = gs[k := Delivered], todo = ks, outcome = Panicked,
                             writer = rw, store = w\<rparr>
                 | Some resp \<Rightarrow>
                     (case io_Copy_rw rw (Body resp) w of
                        (rw', ok, w') \<Rightarrow>
                          if \<not> ok
                          then \<lparr>chans = gs[k := Delivered], todo = ks, outcome = Returned,
                                writer = WriteHeader rw' StatusInternalServerError, store = w'\<rparr>
                          else reassemble (gs[k := Delivered]) ks rw'
                                 (Body_Close (Body resp) w'))))
      | Running req \<Rightarrow> \<lparr>chans = gs, todo = k # ks, outcome = Waiting, writer = rw, store = w\<rparr>
      | Delivered \<Rightarrow> \<lparr>chans = gs, todo = k # ks, outcome = Waiting, writer = rw, store = w\<rparr>)"

text \<open>The handler goes on from where it waits, as far as the values at hand allow.\<close>

definition receive :: "sys \<Rightarrow> sys" where
  "receive s =
     (if outcome s = Waiting then reassemble (chans s) (todo s) (writer s) (store s) else s)"

text \<open>
  The goroutine of channel \<open>k\<close> ends its attempts and blocks in its send. Its attempts
  are taken as one step at the moment it completes.
\<close>

definition complete :: "Refractor \<Rightarrow> nat \<Rightarrow> sys \<Rightarrow> sys" where
  "complete rf k s =
     (if k < length (chans s) then
        (case chans s ! k of
           Running req \<Rightarrow>
             (case retryRequest rf req (store s) of
                (re, w) \<Rightarrow> s\<lparr>chans := (chans s)[k := Sending re], store := w\<rparr>)
         | Sending re \<Rightarrow> s
         | Delivered \<Rightarrow> s)
      else s)"

text \<open>
  The fetches complete in the order given; after each completion the handler takes
  what it can.
\<close>

fun run :: "Refractor \<Rightarrow> nat list \<Rightarrow> sys \<Rightarrow> sys" where
  "run rf [] s = s"
| "run rf (k # order) s = run rf order (receive (complete rf k s))"

subsection \<open>handleRefracted and ServeHTTP\<close>

text \<open>
  \<open>order\<close> is the order in which the chunk fetches complete. The probe is received
  at once; \<^verbatim>\<open>br.response.ContentLength\<close> on a nil response is a nil dereference.
\<close>

definition handleRefracted ::
  "Refractor \<Rightarrow> string \<Rightarrow> nat list \<Rightarrow> ResponseWriter \<Rightarrow> world \<Rightarrow> sys option" where
  "handleRefracted rf url order rw w =
     (case NewRequest rf MethodHead url of
        Inl e \<Rightarrow> Some (finish Returned (WriteHeader rw StatusInternalServerError) w)
      | Inr headReq \<Rightarrow>
          (let headReq = headReq\<lparr>Header := Header_Add (Header headReq) ''accept-encoding'' ''identity''\<rparr>
           in case retryRequest rf headReq w of (br, w) \<Rightarrow>
             (case response br of
                None \<Rightarrow> Some (finish Panicked rw w)
              | Some probe \<Rightarrow>
                  (case chunk_loop rf url (ContentLength probe) 0 [] of
                     None \<Rightarrow> None
                   | Some (launched, built) \<Rightarrow>
                       if \<not> built
                       then Some (run rf order
                              \<lparr>chans = map (Running \<circ> snd) launched, todo = [],
                               outcome = Returned,
                               writer = WriteHeader rw StatusInternalServerError, store = w\<rparr>)
                       else Some (run rf order (receive
                              \<lparr>chans = map (Running \<circ> snd) launched,
                               todo = [0..<length launched], outcome = Waiting,
                               writer = rw\<lparr>rw_header := Header_Add (rw_header rw) ''content-length''
                                                      (Sprint (ContentLength probe))\<rparr>,
                               store = w\<rparr>))))))"




subsection \<open>Requests the handlers build, and a small mirror\<close>

text \<open>The request \<^verbatim>\<open>handleRefracted\<close> builds for its probe, and the one of \<^verbatim>\<open>handlePlain\<close>.\<close>

definition probe_request :: "string \<Rightarrow> request" where
  "probe_request url =
     \<lparr>Method = MethodHead, URL = url, Header = [(''accept-encoding'', ''identity'')]\<rparr>"

definition plain_request :: "string \<Rightarrow> request" where
  "plain_request url = \<lparr>Method = MethodGet, URL = url, Header = []\<rparr>"

text \<open>A response writer nothing was written to, and a refractor that has fetched nothing yet.\<close>

definition fresh :: ResponseWriter where
  "fresh = \<lparr>status = None, rw_header = [], written = [], room = None\<rparr>"

definition idle :: world where
  "idle = \<lparr>buffers = [], events = []\<rparr>"

text \<open>
  A mirror pool for the scenarios below. It refuses the requests in \<open>down\<close>; it answers
  a probe with the length of the resource, a range it knows with that part of the
  resource and status 206, and any other request with the whole resource.
\<close>

definition mirror ::
  "byte list \<Rightarrow> (string \<times> byte list) list \<Rightarrow> (request \<Rightarrow> bool) \<Rightarrow> request \<Rightarrow> nat \<Rightarrow> error + upstream"
where
  "mirror d parts down r n =
     (if down r then Inl (DoErr ''connection refused'')
      else if Method r = MethodHead
      then Inr \<lparr>up_StatusCode = 200, up_ContentLength = int (length d), up_wire = [],
                up_read_err = None\<rparr>
      else (case map_of parts (Header_Get (Header r) ''range'') of
              None \<Rightarrow> Inr \<lparr>up_StatusCode = 200, up_ContentLength = int (length d), up_wire = d,
                           up_read_err = None\<rparr>
            | Some b \<Rightarrow> Inr \<lparr>up_StatusCode = 206, up_ContentLength = int (length b), up_wire = b,
                             up_read_err = None\<rparr>))"

text \<open>Six bytes behind a refractor whose chunk size is 3.\<close>

definition six :: "(request \<Rightarrow> bool) \<Rightarrow> Refractor" where
  "six down =
     \<lparr>config = \<lparr>ChunkSize = 3, ChunkTimeout = 5000000000\<rparr>, url_ok = (\<lambda>u. True),
      Do = mirror [1, 2, 3, 4, 5, 6]
             [(''bytes=0-3'', [1, 2, 3, 4]), (''bytes=4-6'', [5, 6])] down\<rparr>"

text \<open>A mirror pool that gives the same answer to every request.\<close>

definition always :: "upstream \<Rightarrow> Refractor" where
  "always up =
     \<lparr>config = WithDefaults \<lparr>ChunkSize = 0, ChunkTimeout = 0\<rparr>, url_ok = (\<lambda>u. True),
      Do = (\<lambda>r n. Inr up)\<rparr>"

text \<open>The two chunk requests of the refractor above for a resource of six bytes.\<close>

definition first_chunk :: request where
  "first_chunk =
     \<lparr>Method = MethodGet, URL = ''/pkg.tar'',
      Header = [(''range'', ''bytes=0-3''), (''accept-encoding'', ''identity'')]\<rparr>"

definition second_chunk :: request where
  "second_chunk =
     \<lparr>Method = MethodGet, URL = ''/pkg.tar'',
      Header = [(''range'', ''bytes=4-6''), (''accept-encoding'', ''identity'')]\<rparr>"

subsection \<open>The state of the channels during reassembly\<close>

text \<open>A goroutine is blocked in its send with a successful response whose body is \<open>b\<close>.\<close>

definition fetched :: "byte list \<Rightarrow> goroutine \<Rightarrow> bool" where
  "fetched b g =
     (case g of
        Sending re \<Rightarrow>
          err re = None \<and>
          (case response re of None \<Rightarrow> False | Some resp \<Rightarrow> Body resp = BufferBacked b)
      | Running req \<Rightarrow> False
      | Delivered \<Rightarrow> False)"

text \<open>
  The handler has received the values of the channels before \<open>i\<close>; every later
  goroutine still runs its request or is blocked in its send with its body.
\<close>

definition waiting_for :: "request list \<Rightarrow> byte list list \<Rightarrow> nat \<Rightarrow> goroutine list \<Rightarrow> bool" where
  "waiting_for reqs bodies i gs \<longleftrightarrow>
     length gs = length reqs \<and> i \<le> length reqs \<and>
     (\<forall>k<i. gs ! k = Delivered) \<and>
     (\<forall>k. i \<le> k \<and> k < length reqs \<longrightarrow>
        gs ! k = Running (reqs ! k) \<or> fetched (bodies ! k) (gs ! k))"

text \<open>
  The handler, having started with \<open>before\<close> written, has written the bodies of the
  channels before \<open>i\<close> in their order, and waits for the goroutine of channel \<open>i\<close>, or
  has returned when there is none.
\<close>

definition settled :: "request list \<Rightarrow> byte list list \<Rightarrow> byte list \<Rightarrow> nat \<Rightarrow> sys \<Rightarrow> bool" where
  "settled reqs bodies before i s \<longleftrightarrow>
     waiting_for reqs bodies i (chans s) \<and>
     todo s = [i..<length reqs] \<and>
     room (writer s) = None \<and>
     written (writer s) = before @ concat (map ((!) bodies) [0..<i]) \<and>
     (if i = length reqs then outcome s = Returned
      else outcome s = Waiting \<and> chans s ! i = Running (reqs ! i))"

subsection \<open>The ranges of the partition, and the bytes of a range\<close>

text \<open>
  The ranges the loop of \<^verbatim>\<open>handleRefracted\<close> walks through from \<open>start\<close> when the chunk
  size is not negative and no sum leaves \<^verbatim>\<open>int64\<close> (lemma \<open>chunk_loop_ranges\<close> below
  shows that the loop launches exactly these).
\<close>

function chunk_ranges :: "int \<Rightarrow> int \<Rightarrow> int \<Rightarrow> (int \<times> int) list" where
  "chunk_ranges c sz start =
     (if start < sz \<and> 0 \<le> c
      then (start, min (start + c) sz) # chunk_ranges c sz (min (start + c) sz + 1)
      else [])"
  by pat_completeness auto
termination
  by (relation "measure (\<lambda>(c, sz, start). nat (sz - start))") auto

declare chunk_ranges.simps [simp del]

text \<open>
  What a mirror that holds the resource \<open>d\<close> sends for the range header
  \<^verbatim>\<open>bytes=s-e\<close>: the bytes from offset \<open>s\<close> to offset \<open>e\<close>, both included, as far as the
  resource reaches.
\<close>

definition byte_range :: "byte list \<Rightarrow> int \<times> int \<Rightarrow> byte list" where
  "byte_range d c = take (nat (snd c - fst c + 1)) (drop (nat (fst c)) d)"

subsection \<open>Attempts and retries\<close>

lemma events_emit [simp]: "events (emit e w) = events w @ [e]"
  by (simp add: emit_def)

lemma buffers_emit [simp]: "buffers (emit e w) = buffers w"
  by (simp add: emit_def)

lemma request_Do_err:
  "Do rf r n = Inl e \<Longrightarrow> request rf r n w = (Inl e, w\<lparr>events := events w @ [EvDo r]\<rparr>)"
  by (simp add: request_def emit_def)

lemma request_mismatch:
  "Do rf r n = Inr up \<Longrightarrow> up_StatusCode up \<noteq> expectedStatus r \<Longrightarrow>
   request rf r n w =
     (Inl (StatusErr (up_StatusCode up) (expectedStatus r)),
      w\<lparr>events := events w @ [EvDo r, EvClose]\<rparr>)"
  by (simp add: request_def emit_def)

lemma request_head:
  "Do rf r n = Inr up \<Longrightarrow> up_StatusCode up = expectedStatus r \<Longrightarrow> Method r = MethodHead \<Longrightarrow>
   request rf r n w =
     (Inr \<lparr>StatusCode = up_StatusCode up, ContentLength = up_ContentLength up, Body = ClosedUpstream\<rparr>,
      w\<lparr>events := events w @ [EvDo r, EvClose]\<rparr>)"
  by (simp add: request_def emit_def)

lemma request_copy:
  "Do rf r n = Inr up \<Longrightarrow> up_StatusCode up = expectedStatus r \<Longrightarrow> Method r \<noteq> MethodHead \<Longrightarrow>
   request rf r n w =
     ((case up_read_err up of
         Some e \<Rightarrow> Inl (CopyErr e)
       | None \<Rightarrow>
           if int (length (up_wire up)) \<noteq> up_ContentLength up
           then Inl (TruncatedErr (up_ContentLength up) (int (length (up_wire up))))
           else Inr \<lparr>StatusCode = up_StatusCode up, ContentLength = up_ContentLength up,
                     Body = BufferBacked (up_wire up)\<rparr>),
      w\<lparr>buffers := tl (buffers w),
        events := events w @ [EvDo r, EvGet, EvReset, EvCopy (length (up_wire up)), EvClose]\<rparr>)"
  by (cases "buffers w")
     (simp_all add: request_def emit_def buffers_Get_def Buffer_Reset_def io_Copy_buf_def
        split: option.split)

lemma retry_loop_ok:
  "fst (request rf r (Suc tried) w) = Inr resp \<Longrightarrow>
   retry_loop rf r tried w = (\<lparr>err = None, response = Some resp\<rparr>, snd (request rf r (Suc tried) w))"
  by (subst retry_loop.simps) (simp add: split_beta)

lemma retry_loop_again:
  "fst (request rf r (Suc tried) w) = Inl e \<Longrightarrow> Suc tried < retries \<Longrightarrow>
   retry_loop rf r tried w = retry_loop rf r (Suc tried) (snd (request rf r (Suc tried) w))"
  by (subst retry_loop.simps) (simp add: split_beta)

lemma retry_loop_give_up:
  "fst (request rf r (Suc tried) w) = Inl e \<Longrightarrow> \<not> Suc tried < retries \<Longrightarrow>
   retry_loop rf r tried w = (\<lparr>err = Some e, response = None\<rparr>, snd (request rf r (Suc tried) w))"
  by (subst retry_loop.simps) (simp add: split_beta)


lemma retryRequest_ok:
  assumes "Do rf r 1 = Inr up" "up_StatusCode up = expectedStatus r" "Method r \<noteq> MethodHead"
    "up_read_err up = None" "int (length (up_wire up)) = up_ContentLength up"
  shows "retryRequest rf r w =
     (\<lparr>err = None,
       response = Some \<lparr>StatusCode = up_StatusCode up, ContentLength = up_ContentLength up,
                        Body = BufferBacked (up_wire up)\<rparr>\<rparr>,
      w\<lparr>buffers := tl (buffers w),
        events := events w @ [EvDo r, EvGet, EvReset, EvCopy (length (up_wire up)), EvClose]\<rparr>)"
  using assms by (simp add: retryRequest_def retry_loop_ok request_copy)

lemma retryRequest_head_ok:
  assumes "Do rf r 1 = Inr up" "up_StatusCode up = expectedStatus r" "Method r = MethodHead"
  shows "retryRequest rf r w =
     (\<lparr>err = None,
       response = Some \<lparr>StatusCode = up_StatusCode up, ContentLength = up_ContentLength up,
                        Body = ClosedUpstream\<rparr>\<rparr>,
      w\<lparr>events := events w @ [EvDo r, EvClose]\<rparr>)"
  using assms by (simp add: retryRequest_def retry_loop_ok request_head)

lemma retry_loop_down:
  assumes down: "\<And>n. Do rf r n = Inl e"
  shows "tried < retries \<Longrightarrow>
    retry_loop rf r tried w =
      (\<lparr>err = Some e, response = None\<rparr>,
       w\<lparr>events := events w @ replicate (retries - tried) (EvDo r)\<rparr>)"
proof (induction "retries - tried" arbitrary: tried w)
  case 0
  then show ?case by simp
next
  case (Suc k)
  have step: "request rf r (tried + 1) w = (Inl e, w\<lparr>events := events w @ [EvDo r]\<rparr>)"
    by (rule request_Do_err) (rule down)
  show ?case
  proof (cases "tried + 1 < retries")
    case True
    have k: "k = retries - (tried + 1)" using Suc.hyps(2) by simp
    have "retry_loop rf r (tried + 1) (w\<lparr>events := events w @ [EvDo r]\<rparr>) =
        (\<lparr>err = Some e, response = None\<rparr>,
         w\<lparr>events := events w @ [EvDo r] @ replicate (retries - (tried + 1)) (EvDo r)\<rparr>)"
      using Suc.hyps(1) [OF k True] by simp
    moreover have "[EvDo r] @ replicate (retries - (tried + 1)) (EvDo r) =
        replicate (retries - tried) (EvDo r)"
      using Suc.hyps(2) [symmetric] k by simp
    ultimately show ?thesis
      using True step by (subst retry_loop.simps) simp
  next
    case False
    with Suc.prems have "retries - tried = 1" by simp
    then show ?thesis
      using False step by (subst retry_loop.simps) simp
  qed
qed

lemma retryRequest_down:
  assumes "\<And>n. Do rf r n = Inl e"
  shows "retryRequest rf r w =
     (\<lparr>err = Some e, response = None\<rparr>, w\<lparr>events := events w @ replicate retries (EvDo r)\<rparr>)"
  using retry_loop_down [of rf r e 0 w] assms by (simp add: retryRequest_def retries_def)

lemma request_fst_indep: "fst (request rf r n w) = fst (request rf r n w')"
  by (simp add: request_def emit_def buffers_Get_def Buffer_Reset_def io_Copy_buf_def Let_def
      split: sum.split list.split option.split)

lemma retry_loop_fst_indep: "fst (retry_loop rf r tried w) = fst (retry_loop rf r tried w')"
proof (induction rf r tried w arbitrary: w' rule: retry_loop.induct)
  case (1 rf r tried w)
  obtain x v where a: "request rf r (tried + 1) w = (x, v)" by (cases "request rf r (tried + 1) w")
  obtain x' v' where b: "request rf r (tried + 1) w' = (x', v')" by (cases "request rf r (tried + 1) w'")
  have xx: "x' = x" using request_fst_indep [of rf r "tried + 1" w w'] a b by simp
  show ?case
  proof (cases x)
    case (Inl e)
    show ?thesis
    proof (cases "tried + 1 < retries")
      case True
      have "fst (retry_loop rf r (tried + 1) v) = fst (retry_loop rf r (tried + 1) v')"
        using "1.IH" [OF refl a [symmetric] Inl True] by simp
      then show ?thesis
        using a b xx Inl True
        by (subst retry_loop.simps, subst (2) retry_loop.simps) simp
    next
      case False
      then show ?thesis using a b xx Inl
        by (subst retry_loop.simps, subst (2) retry_loop.simps) simp
    qed
  next
    case (Inr resp)
    then show ?thesis using a b xx
      by (subst retry_loop.simps, subst (2) retry_loop.simps) simp
  qed
qed

lemma retryRequest_fst_indep: "fst (retryRequest rf r w) = fst (retryRequest rf r w')"
  by (simp add: retryRequest_def retry_loop_fst_indep [of rf r 0 w w'])

lemma retry_loop_one_of: "(err (fst (retry_loop rf r tried w)) = None) = (response (fst (retry_loop rf r tried w)) \<noteq> None)"
proof (induction rf r tried w rule: retry_loop.induct)
  case (1 rf r tried w)
  obtain x v where a: "request rf r (tried + 1) w = (x, v)" by (cases "request rf r (tried + 1) w")
  show ?case
  proof (cases x)
    case (Inl e)
    show ?thesis
    proof (cases "tried + 1 < retries")
      case True
      then show ?thesis
        using "1.IH" [OF refl a [symmetric] Inl True] a Inl
        by (subst retry_loop.simps, subst (2) retry_loop.simps) simp
    next
      case False
      then show ?thesis using a Inl
        by (subst retry_loop.simps, subst (2) retry_loop.simps) simp
    qed
  next
    case (Inr resp)
    then show ?thesis using a
      by (subst retry_loop.simps, subst (2) retry_loop.simps) simp
  qed
qed

lemma request_events:
  "\<exists>es. events (snd (request rf r n w)) = events w @ EvDo r # es \<and>
        (\<forall>r'. EvDo r' \<notin> set es) \<and> EvPut \<notin> set es"
  by (cases "buffers w")
     (auto simp: request_def emit_def buffers_Get_def Buffer_Reset_def io_Copy_buf_def Let_def
        split: sum.split option.split)

lemma retry_loop_events:
  "\<exists>es. events (snd (retry_loop rf r tried w)) = events w @ es \<and>
        (\<forall>r'. EvDo r' \<in> set es \<longrightarrow> r' = r) \<and> EvPut \<notin> set es"
proof (induction rf r tried w rule: retry_loop.induct)
  case (1 rf r tried w)
  obtain x v where a: "request rf r (tried + 1) w = (x, v)" by (cases "request rf r (tried + 1) w")
  from request_events [of rf r "tried + 1" w] a
  obtain es where es: "events v = events w @ EvDo r # es" "\<forall>r'. EvDo r' \<notin> set es" "EvPut \<notin> set es"
    by auto
  show ?case
  proof (cases x)
    case (Inl e)
    show ?thesis
    proof (cases "tried + 1 < retries")
      case True
      from "1.IH" [OF refl a [symmetric] Inl True]
      obtain es' where es': "events (snd (retry_loop rf r (tried + 1) v)) = events v @ es'"
        "\<forall>r'. EvDo r' \<in> set es' \<longrightarrow> r' = r" "EvPut \<notin> set es'" by auto
      have "retry_loop rf r tried w = retry_loop rf r (tried + 1) v"
        using a Inl True by (subst retry_loop.simps) simp
      then have "events (snd (retry_loop rf r tried w)) = events w @ (EvDo r # es @ es')"
        using es es' by simp
      moreover have "\<forall>r'. EvDo r' \<in> set (EvDo r # es @ es') \<longrightarrow> r' = r"
        using es es' by auto
      moreover have "EvPut \<notin> set (EvDo r # es @ es')"
        using es es' by auto
      ultimately show ?thesis by blast
    next
      case False
      have "retry_loop rf r tried w = (\<lparr>err = Some e, response = None\<rparr>, v)"
        using a Inl False by (subst retry_loop.simps) simp
      then show ?thesis using es by auto
    qed
  next
    case (Inr resp)
    have "retry_loop rf r tried w = (\<lparr>err = None, response = Some resp\<rparr>, v)"
      using a Inr by (subst retry_loop.simps) simp
    then show ?thesis using es by auto
  qed
qed

lemma retryRequest_one_of:
  "(err (fst (retryRequest rf r w)) = None) = (response (fst (retryRequest rf r w)) \<noteq> None)"
  by (simp add: retryRequest_def retry_loop_one_of)


lemma handlePlain_failed:
  "url_ok rf url \<Longrightarrow> err (fst (retryRequest rf (plain_request url) w)) \<noteq> None \<Longrightarrow>
   handlePlain rf url rw w =
     finish Returned (WriteHeader rw StatusBadGateway) (snd (retryRequest rf (plain_request url) w))"
  by (cases "retryRequest rf (plain_request url) w")
     (auto simp: handlePlain_def NewRequest_def plain_request_def)

lemma handleRefracted_bad_url:
  "\<not> url_ok rf url \<Longrightarrow>
   handleRefracted rf url order rw w =
     Some (finish Returned (WriteHeader rw StatusInternalServerError) w)"
  by (simp add: handleRefracted_def NewRequest_def)

lemma handleRefracted_probe_failed:
  "url_ok rf url \<Longrightarrow> response (fst (retryRequest rf (probe_request url) w)) = None \<Longrightarrow>
   handleRefracted rf url order rw w =
     Some (finish Panicked rw (snd (retryRequest rf (probe_request url) w)))"
  by (cases "retryRequest rf (probe_request url) w")
     (auto simp: handleRefracted_def NewRequest_def probe_request_def Header_Add_def)

lemma handleRefracted_launched:
  "url_ok rf url \<Longrightarrow> response (fst (retryRequest rf (probe_request url) w)) = Some probe \<Longrightarrow>
   chunk_loop rf url (ContentLength probe) 0 [] = Some (launched, True) \<Longrightarrow>
   handleRefracted rf url order rw w =
     Some (run rf order (receive
       \<lparr>chans = map (Running \<circ> snd) launched, todo = [0..<length launched], outcome = Waiting,
        writer = rw\<lparr>rw_header := Header_Add (rw_header rw) ''content-length''
                                   (Sprint (ContentLength probe))\<rparr>,
        store = snd (retryRequest rf (probe_request url) w)\<rparr>))"
  by (cases "retryRequest rf (probe_request url) w")
     (auto simp: handleRefracted_def NewRequest_def probe_request_def Header_Add_def)

lemma run_returned:
  "outcome s \<noteq> Waiting \<Longrightarrow> chans s = [] \<Longrightarrow> run rf order s = s"
  by (induction order arbitrary: s) (simp_all add: complete_def receive_def)

subsection \<open>The refractor in front of six bytes\<close>

lemma six_probe:
  "\<not> down (probe_request ''/pkg.tar'') \<Longrightarrow>
   retryRequest (six down) (probe_request ''/pkg.tar'') w =
     (\<lparr>err = None,
       response = Some \<lparr>StatusCode = 200, ContentLength = 6, Body = ClosedUpstream\<rparr>\<rparr>,
      w\<lparr>events := events w @ [EvDo (probe_request ''/pkg.tar''), EvClose]\<rparr>)"
  by (subst retryRequest_head_ok [where up = "\<lparr>up_StatusCode = 200, up_ContentLength = 6, up_wire = [],
          up_read_err = None\<rparr>"])
     (simp_all add: six_def mirror_def probe_request_def expectedStatus_def Header_Get_def
        StatusOK_def)

lemma six_loop:
  "chunk_loop (six down) ''/pkg.tar'' 6 0 [] =
     Some ([((0, 3), first_chunk), ((4, 6), second_chunk)], True)"
  by (simp add: chunk_loop.simps six_def wrap64_def NewRequest_def ranged_request_def
      range_value_def Sprint_def digits.simps digit_char_def Header_Add_def first_chunk_def
      second_chunk_def)

lemma six_first_ok:
  "\<not> down first_chunk \<Longrightarrow>
   retryRequest (six down) first_chunk w =
     (\<lparr>err = None,
       response = Some \<lparr>StatusCode = 206, ContentLength = 4, Body = BufferBacked [1, 2, 3, 4]\<rparr>\<rparr>,
      w\<lparr>buffers := tl (buffers w),
        events := events w @ [EvDo first_chunk, EvGet, EvReset, EvCopy 4, EvClose]\<rparr>)"
  by (subst retryRequest_ok [where up = "\<lparr>up_StatusCode = 206, up_ContentLength = 4,
          up_wire = [1, 2, 3, 4], up_read_err = None\<rparr>"])
     (simp_all add: six_def mirror_def first_chunk_def expectedStatus_def Header_Get_def
        StatusPartialContent_def)

lemma six_second_ok:
  "\<not> down second_chunk \<Longrightarrow>
   retryRequest (six down) second_chunk w =
     (\<lparr>err = None,
       response = Some \<lparr>StatusCode = 206, ContentLength = 2, Body = BufferBacked [5, 6]\<rparr>\<rparr>,
      w\<lparr>buffers := tl (buffers w),
        events := events w @ [EvDo second_chunk, EvGet, EvReset, EvCopy 2, EvClose]\<rparr>)"
  by (subst retryRequest_ok [where up = "\<lparr>up_StatusCode = 206, up_ContentLength = 2,
          up_wire = [5, 6], up_read_err = None\<rparr>"])
     (simp_all add: six_def mirror_def second_chunk_def expectedStatus_def Header_Get_def
        StatusPartialContent_def)

lemma six_down:
  "down r \<Longrightarrow>
   retryRequest (six down) r w =
     (\<lparr>err = Some (DoErr ''connection refused''), response = None\<rparr>,
      w\<lparr>events := events w @ replicate retries (EvDo r)\<rparr>)"
  by (rule retryRequest_down) (simp add: six_def mirror_def)

subsection \<open>The status check of an attempt\<close>

lemma ranged_request_range:
  "''range'' \<notin> fst ` set (Header req) \<Longrightarrow>
   map_of (Header (ranged_request req c)) ''range'' = Some (range_value (fst c) (snd c))"
proof -
  assume "''range'' \<notin> fst ` set (Header req)"
  then have "map_of (Header req) ''range'' = None"
    by (simp add: map_of_eq_None_iff)
  then show ?thesis
    by (simp add: ranged_request_def Header_Add_def map_add_def)
qed

lemma range_value_not_empty: "range_value start end' \<noteq> []"
  by (simp add: range_value_def)

text \<open>
  C8. An attempt expects status 200 when the request carries no range header and 206
  when it carries one (with a value that is not empty, as every range header the
  handlers write is: \<open>ranged_request_range\<close>, \<open>range_value_not_empty\<close>). When the
  mirror answers with another status, the attempt fails with the status-mismatch
  error; the upstream body is closed, and the pool of buffers is not touched: the
  only calls are the exchange and the close.
\<close>

theorem C8_status_mismatch:
  "(''range'' \<notin> fst ` set (Header r) \<longrightarrow> expectedStatus r = StatusOK) \<and>
   (''range'' \<in> fst ` set (Header r) \<and> map_of (Header r) ''range'' \<noteq> Some [] \<longrightarrow>
      expectedStatus r = StatusPartialContent) \<and>
   (\<forall>up. Do rf r n = Inr up \<and> up_StatusCode up \<noteq> expectedStatus r \<longrightarrow>
      request rf r n w =
        (Inl (StatusErr (up_StatusCode up) (expectedStatus r)),
         w\<lparr>events := events w @ [EvDo r, EvClose]\<rparr>))"
proof (intro conjI impI allI)
  assume "''range'' \<notin> fst ` set (Header r)"
  then have "map_of (Header r) ''range'' = None"
    by (simp add: map_of_eq_None_iff)
  then show "expectedStatus r = StatusOK"
    by (simp add: expectedStatus_def Header_Get_def)
next
  assume a: "''range'' \<in> fst ` set (Header r) \<and> map_of (Header r) ''range'' \<noteq> Some []"
  then obtain v where "map_of (Header r) ''range'' = Some v"
    by (cases "map_of (Header r) ''range''") (simp_all add: map_of_eq_None_iff)
  with a show "expectedStatus r = StatusPartialContent"
    by (simp add: expectedStatus_def Header_Get_def)
next
  fix up
  assume "Do rf r n = Inr up \<and> up_StatusCode up \<noteq> expectedStatus r"
  then show "request rf r n w =
      (Inl (StatusErr (up_StatusCode up) (expectedStatus r)),
       w\<lparr>events := events w @ [EvDo r, EvClose]\<rparr>)"
    by (simp add: request_mismatch)
qed

lemmas scenario_simps =
  always_def six_def mirror_def plain_request_def probe_request_def ranged_request_def
  range_value_def Sprint_def digits.simps digit_char_def Header_Add_def Header_Get_def
  expectedStatus_def StatusOK_def StatusPartialContent_def idle_def fresh_def

theorem C8_status_mismatch_witness:
  "expectedStatus (plain_request ''/core.db'') = 200 \<and>
   Header (ranged_request (plain_request ''/pkg.tar'') (0, 3)) =
     [(''range'', ''bytes=0-3''), (''accept-encoding'', ''identity'')] \<and>
   expectedStatus (ranged_request (plain_request ''/pkg.tar'') (0, 3)) = 206 \<and>
   request
     (always \<lparr>up_StatusCode = 200, up_ContentLength = 6, up_wire = [1, 2, 3, 4, 5, 6],
              up_read_err = None\<rparr>)
     (ranged_request (plain_request ''/pkg.tar'') (0, 3)) 1 idle =
     (Inl (StatusErr 200 206),
      \<lparr>buffers = [],
       events = [EvDo (ranged_request (plain_request ''/pkg.tar'') (0, 3)), EvClose]\<rparr>)"
  using
    C8_status_mismatch [of "plain_request ''/core.db''" rf 1 idle]
    C8_status_mismatch [of "ranged_request (plain_request ''/pkg.tar'') (0, 3)"
      "always \<lparr>up_StatusCode = 200, up_ContentLength = 6, up_wire = [1, 2, 3, 4, 5, 6],
               up_read_err = None\<rparr>" 1 idle]
  by (simp add: scenario_simps)

subsection \<open>The copy into the pooled buffer\<close>

text \<open>
  C9, as the claim states it, fails: a body that ends with a read error after three
  of ten declared bytes makes the attempt fail with the read error, not with the
  truncation error.
\<close>

theorem C9_read_error_counterexample:
  "int (length (up_wire \<lparr>up_StatusCode = 200, up_ContentLength = 10, up_wire = [1, 2, 3],
                         up_read_err = Some ''read on closed response body''\<rparr>)) \<noteq> 10 \<and>
   fst (request
          (always \<lparr>up_StatusCode = 200, up_ContentLength = 10, up_wire = [1, 2, 3],
                   up_read_err = Some ''read on closed response body''\<rparr>)
          (plain_request ''/core.db'') 1 idle) =
     Inl (CopyErr ''read on closed response body'')"
  by (simp add: request_copy scenario_simps)

text \<open>
  C9, amended. For an attempt that is not a probe and reaches the copy: when the
  copy ends without a read error and the number of bytes copied differs from the
  declared content length, the attempt fails with the truncation error; when the
  copy ends with a read error, the attempt fails with that error; a failed attempt
  is followed by the next one while attempts remain; a copy of the declared length
  yields the response with a body backed by the buffer.
\<close>

theorem C9_copy_outcome:
  assumes "Do rf r n = Inr up" and "up_StatusCode up = expectedStatus r"
    and "Method r \<noteq> MethodHead"
  shows
    "(up_read_err up = None \<and> int (length (up_wire up)) \<noteq> up_ContentLength up \<longrightarrow>
        fst (request rf r n w) =
          Inl (TruncatedErr (up_ContentLength up) (int (length (up_wire up))))) \<and>
     (\<forall>e. up_read_err up = Some e \<longrightarrow> fst (request rf r n w) = Inl (CopyErr e)) \<and>
     (up_read_err up = None \<and> int (length (up_wire up)) = up_ContentLength up \<longrightarrow>
        fst (request rf r n w) =
          Inr \<lparr>StatusCode = up_StatusCode up, ContentLength = up_ContentLength up,
               Body = BufferBacked (up_wire up)\<rparr>) \<and>
     (\<forall>tried. n = Suc tried \<and> n < retries \<and> isl (fst (request rf r n w)) \<longrightarrow>
        retry_loop rf r tried w = retry_loop rf r n (snd (request rf r n w)))"
proof (intro conjI impI allI)
  assume "up_read_err up = None \<and> int (length (up_wire up)) \<noteq> up_ContentLength up"
  then show "fst (request rf r n w) =
      Inl (TruncatedErr (up_ContentLength up) (int (length (up_wire up))))"
    by (simp add: request_copy [OF assms])
next
  fix e
  assume "up_read_err up = Some e"
  then show "fst (request rf r n w) = Inl (CopyErr e)"
    by (simp add: request_copy [OF assms])
next
  assume "up_read_err up = None \<and> int (length (up_wire up)) = up_ContentLength up"
  then show "fst (request rf r n w) =
      Inr \<lparr>StatusCode = up_StatusCode up, ContentLength = up_ContentLength up,
           Body = BufferBacked (up_wire up)\<rparr>"
    by (simp add: request_copy [OF assms])
next
  fix tried
  assume a: "n = Suc tried \<and> n < retries \<and> isl (fst (request rf r n w))"
  then obtain e where "fst (request rf r (Suc tried) w) = Inl e"
    by (auto simp: isl_def)
  with a show "retry_loop rf r tried w = retry_loop rf r n (snd (request rf r n w))"
    by (simp add: retry_loop_again)
qed

theorem C9_copy_outcome_witness:
  "fst (request
          (always \<lparr>up_StatusCode = 200, up_ContentLength = 10, up_wire = [1, 2, 3],
                   up_read_err = None\<rparr>)
          (plain_request ''/core.db'') 1 idle) = Inl (TruncatedErr 10 3) \<and>
   retry_loop
     (always \<lparr>up_StatusCode = 200, up_ContentLength = 10, up_wire = [1, 2, 3],
              up_read_err = None\<rparr>)
     (plain_request ''/core.db'') 0 idle =
   retry_loop
     (always \<lparr>up_StatusCode = 200, up_ContentLength = 10, up_wire = [1, 2, 3],
              up_read_err = None\<rparr>)
     (plain_request ''/core.db'') 1
     \<lparr>buffers = [],
      events = [EvDo (plain_request ''/core.db''), EvGet, EvReset, EvCopy 3, EvClose]\<rparr>"
proof -
  let ?up = "\<lparr>up_StatusCode = 200, up_ContentLength = 10, up_wire = [1, 2, 3::byte],
              up_read_err = None\<rparr>"
  have 1: "Do (always ?up) (plain_request ''/core.db'') (Suc 0) = Inr ?up"
    by (simp add: always_def)
  have 2: "up_StatusCode ?up = expectedStatus (plain_request ''/core.db'')"
    by (simp add: scenario_simps)
  have 3: "Method (plain_request ''/core.db'') \<noteq> MethodHead"
    by (simp add: plain_request_def)
  have 4: "snd (request (always ?up) (plain_request ''/core.db'') (Suc 0) idle) =
      \<lparr>buffers = [],
       events = [EvDo (plain_request ''/core.db''), EvGet, EvReset, EvCopy 3, EvClose]\<rparr>"
    by (simp add: request_copy [OF 1 2 3] idle_def)
  show ?thesis
    using C9_copy_outcome [OF 1 2 3, of idle] 4 by (simp add: retries_def)
qed

subsection \<open>The loan of a buffer\<close>

lemma retry_loop_all_fail:
  assumes fail: "\<And>n w. request rf r n w = (Inl e, f w)"
  shows "tried < retries \<Longrightarrow>
    retry_loop rf r tried w = (\<lparr>err = Some e, response = None\<rparr>, (f ^^ (retries - tried)) w)"
proof (induction "retries - tried" arbitrary: tried w)
  case 0
  then show ?case by simp
next
  case (Suc k)
  show ?case
  proof (cases "tried + 1 < retries")
    case True
    have k: "k = retries - (tried + 1)" using Suc.hyps(2) by simp
    have "retry_loop rf r (tried + 1) (f w) =
        (\<lparr>err = Some e, response = None\<rparr>, (f ^^ k) (f w))"
      using Suc.hyps(1) [OF k True] k by simp
    moreover have "(f ^^ k) (f w) = (f ^^ (retries - tried)) w"
      using Suc.hyps(2) [symmetric] by (simp add: funpow_swap1)
    ultimately show ?thesis
      using True fail by (subst retry_loop.simps) simp
  next
    case False
    with Suc.prems have "retries - tried = 1" by simp
    then show ?thesis
      using False fail by (subst retry_loop.simps) simp
  qed
qed

lemma io_Copy_rw_events:
  "io_Copy_rw rw (BufferBacked b) w = (rw', ok, w') \<Longrightarrow>
   events w' = events w @ (if ok then [EvPut] else []) \<and>
   (ok \<longrightarrow> written rw' = written rw @ b) \<and>
   buffers w' = (if ok then [] # buffers w else buffers w)"
  by (auto simp: io_Copy_rw_def Write_def WriteHeader_def buffers_Put_def emit_def Let_def
      split: if_splits option.splits)

text \<open>
  C5, as the claim states it, fails on the error paths. A mirror that declares ten
  bytes and delivers three makes each of the five attempts of \<^verbatim>\<open>handlePlain\<close> take a
  buffer, and none of the five is given back.
\<close>

theorem C5_truncated_counterexample:
  "outcome (handlePlain
     (always \<lparr>up_StatusCode = 200, up_ContentLength = 10, up_wire = [1, 2, 3],
              up_read_err = None\<rparr>) ''/core.db'' fresh idle) = Returned \<and>
   count_list (events (store (handlePlain
     (always \<lparr>up_StatusCode = 200, up_ContentLength = 10, up_wire = [1, 2, 3],
              up_read_err = None\<rparr>) ''/core.db'' fresh idle))) EvGet = 5 \<and>
   count_list (events (store (handlePlain
     (always \<lparr>up_StatusCode = 200, up_ContentLength = 10, up_wire = [1, 2, 3],
              up_read_err = None\<rparr>) ''/core.db'' fresh idle))) EvPut = 0"
proof -
  let ?up = "\<lparr>up_StatusCode = 200, up_ContentLength = 10, up_wire = [1, 2, 3::byte],
              up_read_err = None\<rparr>"
  let ?r = "plain_request ''/core.db''"
  let ?f = "\<lambda>w. w\<lparr>buffers := tl (buffers w),
                    events := events w @ [EvDo ?r, EvGet, EvReset, EvCopy 3, EvClose]\<rparr>"
  have 1: "\<And>n. Do (always ?up) ?r n = Inr ?up"
    by (simp add: always_def)
  have 2: "up_StatusCode ?up = expectedStatus ?r"
    by (simp add: scenario_simps)
  have 3: "Method ?r \<noteq> MethodHead"
    by (simp add: plain_request_def)
  have "\<And>n w. request (always ?up) ?r n w = (Inl (TruncatedErr 10 3), ?f w)"
    by (simp add: request_copy [OF 1 2 3])
  then have "retry_loop (always ?up) ?r 0 idle =
      (\<lparr>err = Some (TruncatedErr 10 3), response = None\<rparr>, (?f ^^ (retries - 0)) idle)"
    by (rule retry_loop_all_fail) (simp add: retries_def)
  then have 4: "retryRequest (always ?up) ?r idle =
      (\<lparr>err = Some (TruncatedErr 10 3), response = None\<rparr>, (?f ^^ 5) idle)"
    by (simp add: retryRequest_def retries_def)
  have 5: "url_ok (always ?up) ''/core.db''"
    by (simp add: always_def)
  have "handlePlain (always ?up) ''/core.db'' fresh idle =
      finish Returned (WriteHeader fresh StatusBadGateway) ((?f ^^ 5) idle)"
    using handlePlain_failed [OF 5, of idle fresh] 4 by simp
  then show ?thesis
    by (simp add: finish_def idle_def numeral_eq_Suc)
qed

text \<open>
  C5, amended. For an attempt that takes a buffer: the buffer is reset right after
  it is taken and before the copy, so that the body of a successful response holds
  the bytes of the upstream body and nothing the pooled buffer held before; the
  attempt itself gives nothing back to the pool; the buffer is given back by the
  completion callback, once, when the consumer has taken all its bytes, and not
  when the client cuts the copy short.
\<close>

theorem C5_buffer_loan:
  assumes "Do rf r n = Inr up" and "up_StatusCode up = expectedStatus r"
    and "Method r \<noteq> MethodHead"
  shows
    "events (snd (request rf r n w)) =
       events w @ [EvDo r, EvGet, EvReset, EvCopy (length (up_wire up)), EvClose] \<and>
     (\<forall>resp. fst (request rf r n w) = Inr resp \<longrightarrow> Body resp = BufferBacked (up_wire up)) \<and>
     (\<forall>resp rw v rw' ok v'.
        fst (request rf r n w) = Inr resp \<and> io_Copy_rw rw (Body resp) v = (rw', ok, v') \<longrightarrow>
          events (Body_Close (Body resp) v') = events v @ (if ok then [EvPut] else []) \<and>
          (ok \<longrightarrow> written rw' = written rw @ up_wire up))"
proof (intro conjI allI impI)
  show "events (snd (request rf r n w)) =
      events w @ [EvDo r, EvGet, EvReset, EvCopy (length (up_wire up)), EvClose]"
    by (simp add: request_copy [OF assms])
next
  fix resp
  assume "fst (request rf r n w) = Inr resp"
  then show "Body resp = BufferBacked (up_wire up)"
    by (auto simp: request_copy [OF assms] split: option.splits if_splits)
next
  fix resp rw v rw' ok v'
  assume a: "fst (request rf r n w) = Inr resp \<and> io_Copy_rw rw (Body resp) v = (rw', ok, v')"
  then have "Body resp = BufferBacked (up_wire up)"
    by (auto simp: request_copy [OF assms] split: option.splits if_splits)
  with a have "io_Copy_rw rw (BufferBacked (up_wire up)) v = (rw', ok, v')"
    by simp
  from io_Copy_rw_events [OF this]
  show "events (Body_Close (Body resp) v') = events v @ (if ok then [EvPut] else [])"
    by (simp add: Body_Close_def)
next
  fix resp rw v rw' ok v'
  assume a: "fst (request rf r n w) = Inr resp \<and> io_Copy_rw rw (Body resp) v = (rw', ok, v')"
    and ok: ok
  then have "Body resp = BufferBacked (up_wire up)"
    by (auto simp: request_copy [OF assms] split: option.splits if_splits)
  with a have "io_Copy_rw rw (BufferBacked (up_wire up)) v = (rw', ok, v')"
    by simp
  from io_Copy_rw_events [OF this] ok
  show "written rw' = written rw @ up_wire up"
    by simp
qed

theorem C5_buffer_loan_witness:
  "request
     (always \<lparr>up_StatusCode = 200, up_ContentLength = 3, up_wire = [1, 2, 3],
              up_read_err = None\<rparr>)
     (plain_request ''/core.db'') 1 \<lparr>buffers = [[9, 9, 9, 9]], events = []\<rparr> =
     (Inr \<lparr>StatusCode = 200, ContentLength = 3, Body = BufferBacked [1, 2, 3]\<rparr>,
      \<lparr>buffers = [],
       events = [EvDo (plain_request ''/core.db''), EvGet, EvReset, EvCopy 3, EvClose]\<rparr>) \<and>
   io_Copy_rw fresh (BufferBacked [1, 2, 3]) idle =
     (fresh\<lparr>status := Some 200, written := [1, 2, 3]\<rparr>, True,
      \<lparr>buffers = [[]], events = [EvPut]\<rparr>)"
proof -
  let ?up = "\<lparr>up_StatusCode = 200, up_ContentLength = 3, up_wire = [1, 2, 3::byte],
              up_read_err = None\<rparr>"
  let ?r = "plain_request ''/core.db''"
  let ?w = "\<lparr>buffers = [[9, 9, 9, 9::byte]], events = []\<rparr>"
  have 1: "Do (always ?up) ?r (Suc 0) = Inr ?up"
    by (simp add: always_def)
  have 2: "up_StatusCode ?up = expectedStatus ?r"
    by (simp add: scenario_simps)
  have 3: "Method ?r \<noteq> MethodHead"
    by (simp add: plain_request_def)
  have 4: "fst (request (always ?up) ?r (Suc 0) ?w) =
      Inr \<lparr>StatusCode = 200, ContentLength = 3, Body = BufferBacked [1, 2, 3]\<rparr>"
    by (simp add: request_copy [OF 1 2 3])
  have 5: "buffers (snd (request (always ?up) ?r (Suc 0) ?w)) = []"
    by (simp add: request_copy [OF 1 2 3])
  have 6: "io_Copy_rw fresh (BufferBacked [1, 2, 3]) idle =
     (fresh\<lparr>status := Some 200, written := [1, 2, 3]\<rparr>, True,
      \<lparr>buffers = [[]], events = [EvPut]\<rparr>)"
    by (simp add: io_Copy_rw_def Write_def WriteHeader_def buffers_Put_def emit_def fresh_def
        idle_def StatusOK_def)
  show ?thesis
    using C5_buffer_loan [OF 1 2 3, of ?w] 4 5 6
    by (cases "request (always ?up) ?r (Suc 0) ?w") (simp add: world.equality)
qed

subsection \<open>The probe\<close>

lemma chunk_loop_nothing:
  "\<not> start < sz \<Longrightarrow> chunk_loop rf url sz start launched = Some (launched, True)"
  by (subst chunk_loop.simps) simp

text \<open>
  C10. When the probe declares a content length that is not positive, no chunk fetch
  is launched, the content-length header of the client response is the declared
  value as printed, nothing is written to the body, and the handler returns: the
  last call that left the refractor is the one that ended the probe.
\<close>

theorem C10_nothing_to_fetch:
  assumes "url_ok rf url"
    and "response (fst (retryRequest rf (probe_request url) w)) = Some probe"
    and "ContentLength probe \<le> 0"
  shows "handleRefracted rf url order rw w =
    Some \<lparr>chans = [], todo = [], outcome = Returned,
          writer = rw\<lparr>rw_header := Header_Add (rw_header rw) ''content-length''
                                     (Sprint (ContentLength probe))\<rparr>,
          store = snd (retryRequest rf (probe_request url) w)\<rparr>"
proof -
  have "chunk_loop rf url (ContentLength probe) 0 [] = Some ([], True)"
    using assms(3) by (simp add: chunk_loop_nothing)
  from handleRefracted_launched [OF assms(1) assms(2) this]
  show ?thesis
    by (simp add: receive_def run_returned)
qed

theorem C10_nothing_to_fetch_witness:
  "handleRefracted
     (always \<lparr>up_StatusCode = 200, up_ContentLength = - 1, up_wire = [], up_read_err = None\<rparr>)
     ''/pkg.tar'' [0, 1] fresh idle =
   Some \<lparr>chans = [], todo = [], outcome = Returned,
         writer = \<lparr>status = None, rw_header = [(''content-length'', ''-1'')], written = [],
                   room = None\<rparr>,
         store = \<lparr>buffers = [], events = [EvDo (probe_request ''/pkg.tar''), EvClose]\<rparr>\<rparr>"
proof -
  let ?up = "\<lparr>up_StatusCode = 200, up_ContentLength = - 1, up_wire = []::byte list,
              up_read_err = None\<rparr>"
  let ?r = "probe_request ''/pkg.tar''"
  have 1: "Do (always ?up) ?r 1 = Inr ?up"
    by (simp add: always_def)
  have 2: "up_StatusCode ?up = expectedStatus ?r"
    by (simp add: scenario_simps)
  have 3: "Method ?r = MethodHead"
    by (simp add: probe_request_def)
  have 4: "url_ok (always ?up) ''/pkg.tar''"
    by (simp add: always_def)
  have 5: "response (fst (retryRequest (always ?up) ?r idle)) =
      Some \<lparr>StatusCode = 200, ContentLength = - 1, Body = ClosedUpstream\<rparr>"
    by (simp add: retryRequest_head_ok [OF 1 2 3])
  have 6: "ContentLength \<lparr>StatusCode = 200, ContentLength = - 1, Body = ClosedUpstream\<rparr> \<le> 0"
    by simp
  have 7: "snd (retryRequest (always ?up) ?r idle) = \<lparr>buffers = [], events = [EvDo ?r, EvClose]\<rparr>"
    by (simp add: retryRequest_head_ok [OF 1 2 3] idle_def)
  show ?thesis
    using C10_nothing_to_fetch [OF 4 5 6, of "[0, 1]" fresh] 7
    by (simp add: fresh_def Header_Add_def Sprint_def digits.simps digit_char_def)
qed

lemma retryRequest_failed_nil:
  "err (fst (retryRequest rf r w)) \<noteq> None \<Longrightarrow> response (fst (retryRequest rf r w)) = None"
  using retryRequest_one_of [of rf r w] by auto

text \<open>
  C3: the code does not do what the claim says. When every attempt of the probe
  fails, \<^verbatim>\<open>handleRefracted\<close> reads \<^verbatim>\<open>br.response.ContentLength\<close> of a nil response: the
  handler panics, and no status is written (\<^verbatim>\<open>handlePlain\<close> checks \<^verbatim>\<open>br.err\<close> and answers
  502). No chunk fetch is launched: the five exchanges are those of the probe.
\<close>

theorem C3_probe_failure_panics:
  "handleRefracted (six (\<lambda>r. Method r = MethodHead)) ''/pkg.tar'' order fresh idle =
     Some \<lparr>chans = [], todo = [], outcome = Panicked,
           writer = \<lparr>status = None, rw_header = [], written = [], room = None\<rparr>,
           store = \<lparr>buffers = [],
                    events = replicate 5 (EvDo (probe_request ''/pkg.tar''))\<rparr>\<rparr>"
proof -
  let ?rf = "six (\<lambda>r. Method r = MethodHead)"
  let ?r = "probe_request ''/pkg.tar''"
  have 1: "\<And>n. Do ?rf ?r n = Inl (DoErr ''connection refused'')"
    by (simp add: six_def mirror_def probe_request_def)
  have 2: "url_ok ?rf ''/pkg.tar''"
    by (simp add: six_def)
  have 3: "retryRequest ?rf ?r idle =
      (\<lparr>err = Some (DoErr ''connection refused''), response = None\<rparr>,
       idle\<lparr>events := events idle @ replicate retries (EvDo ?r)\<rparr>)"
    by (rule retryRequest_down) (rule 1)
  have 4: "snd (retryRequest ?rf ?r idle) =
      \<lparr>buffers = [], events = replicate 5 (EvDo (probe_request ''/pkg.tar''))\<rparr>"
    unfolding 3 by (simp add: idle_def retries_def)
  have 5: "handleRefracted ?rf ''/pkg.tar'' order fresh idle =
      Some (finish Panicked fresh (snd (retryRequest ?rf ?r idle)))"
    by (rule handleRefracted_probe_failed [OF 2]) (simp add: 3)
  show ?thesis
    unfolding 5 4 by (simp add: finish_def fresh_def)
qed

subsection \<open>Routing\<close>





subsection \<open>The partition\<close>

text \<open>
  C1: the code does not do what the claim says. For a resource of 10 MiB and the
  default chunk size of 4 MiB the loop launches the ranges 0-4194304,
  4194305-8388609 and 8388610-10485760: each chunk spans one byte more than the
  chunk size, and the end of the last one is the size itself, not the offset of the
  last byte. For a resource of 5 bytes and a chunk size of 1 it launches 3 chunks,
  not 5.
\<close>

theorem C1_ranges_10MiB_4MiB:
  "map_option (\<lambda>(launched, built). (map fst launched, map (Header \<circ> snd) launched, built))
     (chunk_loop
        \<lparr>config = WithDefaults \<lparr>ChunkSize = 0, ChunkTimeout = 0\<rparr>, url_ok = (\<lambda>u. True),
         Do = pool\<rparr>
        ''/pkg.tar'' (10 * 2 ^ 20) 0 []) =
   Some ([(0, 4194304), (4194305, 8388609), (8388610, 10485760)],
         [[(''range'', ''bytes=0-4194304''), (''accept-encoding'', ''identity'')],
          [(''range'', ''bytes=4194305-8388609''), (''accept-encoding'', ''identity'')],
          [(''range'', ''bytes=8388610-10485760''), (''accept-encoding'', ''identity'')]],
         True) \<and>
   map_option (map fst \<circ> fst)
     (chunk_loop
        \<lparr>config = \<lparr>ChunkSize = 1, ChunkTimeout = 0\<rparr>, url_ok = (\<lambda>u. True), Do = pool\<rparr>
        ''/pkg.tar'' 5 0 []) =
   Some [(0, 1), (2, 3), (4, 5)]"
  by (simp add: chunk_loop.simps WithDefaults_def defaultChunkSize_def defaultChunkTimeout_def
      wrap64_def NewRequest_def ranged_request_def range_value_def Sprint_def digits.simps
      digit_char_def Header_Add_def)

subsection \<open>What the partition loop launches\<close>

text \<open>
  When the chunk size is not negative and \<open>size + ChunkSize + 1\<close> stays within
  \<^verbatim>\<open>int64\<close>, the loop ends and launches the ranges of \<open>chunk_ranges\<close>, each with its
  request. They are \<open>\<lceil>size / (ChunkSize + 1)\<rceil>\<close> many, each lies before the next, and
  the bytes of the ranges, one after the other, are the resource.
\<close>

lemma wrap64_id: "- (2 ^ 63) \<le> x \<Longrightarrow> x < 2 ^ 63 \<Longrightarrow> wrap64 x = x"
  by (simp add: wrap64_def)

lemma chunk_loop_ranges:
  assumes url: "url_ok rf url" and C: "0 \<le> ChunkSize (config rf)"
  shows "0 \<le> start \<Longrightarrow> sz + ChunkSize (config rf) + 1 < 2 ^ 63 \<Longrightarrow>
    chunk_loop rf url sz start launched =
      Some (launched @
            map (\<lambda>c. (c, ranged_request (plain_request url) c))
              (chunk_ranges (ChunkSize (config rf)) sz start), True)"
proof (induction "ChunkSize (config rf)" sz start arbitrary: launched rule: chunk_ranges.induct)
  case (1 sz start)
  let ?C = "ChunkSize (config rf)"
  show ?case
  proof (cases "start < sz")
    case False
    then show ?thesis
      by (subst chunk_loop.simps, subst chunk_ranges.simps) simp
  next
    case True
    have "start + ?C < sz + ?C + 1" using True by simp
    also have "\<dots> < 2 ^ 63" by (rule "1.prems"(2))
    finally have hi: "start + ?C < 2 ^ 63" .
    have "(- (2 ^ 63) :: int) \<le> 0" by simp
    also have "0 \<le> start + ?C" using C "1.prems" by simp
    finally have lo: "- (2 ^ 63) \<le> start + ?C" .
    have e0: "wrap64 (start + ?C) = start + ?C"
      using lo hi by (rule wrap64_id)
    let ?e = "min (start + ?C) sz"
    have e: "(if start + ?C > sz then sz else start + ?C) = ?e" by (simp add: min_def)
    have pos: "0 \<le> ?e + 1" using True C "1.prems" by simp
    have "?e + 1 \<le> sz + 1" by simp
    also have "sz + 1 \<le> sz + ?C + 1" using C by simp
    also have "\<dots> < 2 ^ 63" by (rule "1.prems"(2))
    finally have hi': "?e + 1 < 2 ^ 63" .
    have "(- (2 ^ 63) :: int) \<le> 0" by simp
    also have "0 \<le> ?e + 1" by (rule pos)
    finally have lo': "- (2 ^ 63) \<le> ?e + 1" .
    have n: "wrap64 (?e + 1) = ?e + 1"
      using lo' hi' by (rule wrap64_id)
    have ih: "chunk_loop rf url sz (?e + 1) (launched @ [((start, ?e), ranged_request (plain_request url) (start, ?e))]) =
        Some ((launched @ [((start, ?e), ranged_request (plain_request url) (start, ?e))]) @
              map (\<lambda>c. (c, ranged_request (plain_request url) c)) (chunk_ranges ?C sz (?e + 1)), True)"
      using "1.hyps" [OF _ pos "1.prems"(2)] True C by simp
    have r: "chunk_ranges ?C sz start = (start, ?e) # chunk_ranges ?C sz (?e + 1)"
      using True C by (subst chunk_ranges.simps) simp
    show ?thesis
      using True url ih
      by (subst chunk_loop.simps)
         (simp add: e0 e n r NewRequest_def plain_request_def Let_def)
  qed
qed

lemma byte_ranges_cover:
  "0 \<le> c \<Longrightarrow> 0 \<le> start \<Longrightarrow>
   concat (map (byte_range d) (chunk_ranges c (int (length d)) start)) = drop (nat start) d"
proof (induction c "int (length d)" start rule: chunk_ranges.induct)
  case (1 c start)
  show ?case
  proof (cases "start < int (length d)")
    case False
    then show ?thesis
      using "1.prems" by (subst chunk_ranges.simps) simp
  next
    case True
    let ?e = "min (start + c) (int (length d))"
    have r: "chunk_ranges c (int (length d)) start = (start, ?e) # chunk_ranges c (int (length d)) (?e + 1)"
      using True "1.prems" by (subst chunk_ranges.simps) simp
    have pos: "0 \<le> ?e + 1" using True "1.prems" by simp
    have ih: "concat (map (byte_range d) (chunk_ranges c (int (length d)) (?e + 1))) = drop (nat (?e + 1)) d"
      using "1.hyps" [OF _ "1.prems"(1) pos] True "1.prems" by simp
    have "start \<le> ?e" using True "1.prems" by simp
    then have "nat (?e + 1) = nat (?e - start + 1) + nat start"
      using "1.prems"(2) by linarith
    then have dd: "drop (nat (?e + 1)) d = drop (nat (?e - start + 1)) (drop (nat start) d)"
      by (simp add: add.commute)
    have "concat (map (byte_range d) (chunk_ranges c (int (length d)) start)) =
        byte_range d (start, ?e) @ drop (nat (?e + 1)) d"
      by (simp add: r ih)
    also have "\<dots> = take (nat (?e - start + 1)) (drop (nat start) d) @
        drop (nat (?e - start + 1)) (drop (nat start) d)"
      by (simp only: byte_range_def fst_conv snd_conv dd)
    also have "\<dots> = drop (nat start) d"
      by (rule append_take_drop_id)
    finally show ?thesis .
  qed
qed

lemma chunk_ranges_count:
  "0 \<le> c \<Longrightarrow> start \<le> sz \<Longrightarrow>
   int (length (chunk_ranges c sz start)) = (sz - start + c) div (c + 1)"
proof (induction c sz start rule: chunk_ranges.induct)
  case (1 c sz start)
  show ?case
  proof (cases "start < sz")
    case False
    then have "sz - start = 0" using "1.prems" by simp
    then have "(sz - start + c) div (c + 1) = 0" using "1.prems" by simp
    then show ?thesis
      using False by (subst chunk_ranges.simps) simp
  next
    case True
    let ?e = "min (start + c) sz"
    have r: "chunk_ranges c sz start = (start, ?e) # chunk_ranges c sz (?e + 1)"
      using True "1.prems" by (subst chunk_ranges.simps) simp
    show ?thesis
    proof (cases "start + c < sz")
      case True
      then have e: "?e = start + c" by simp
      have "int (length (chunk_ranges c sz (?e + 1))) = (sz - (?e + 1) + c) div (c + 1)"
        using "1.IH" True \<open>start < sz\<close> "1.prems" e by simp
      moreover have "(sz - start + c) div (c + 1) = (sz - (start + c + 1) + c) div (c + 1) + 1"
      proof -
        have "sz - start + c = (sz - (start + c + 1) + c) + (c + 1)" by simp
        moreover have "c + 1 \<noteq> 0" using "1.prems"(1) by simp
        ultimately show ?thesis
          by (metis div_add_self2)
      qed
      ultimately show ?thesis by (simp add: r e)
    next
      case False
      then have e: "?e = sz" by simp
      have "chunk_ranges c sz (sz + 1) = []" by (subst chunk_ranges.simps) simp
      moreover have "(sz - start + c) div (c + 1) = 1"
      proof (rule int_div_pos_eq [where r = "sz - start - 1"])
        show "sz - start + c = (c + 1) * 1 + (sz - start - 1)" by simp
        show "0 \<le> sz - start - 1" using \<open>start < sz\<close> by simp
        show "sz - start - 1 < c + 1" using False by simp
      qed
      ultimately show ?thesis by (simp add: r e)
    qed
  qed
qed

lemma chunk_ranges_from:
  "0 \<le> c \<Longrightarrow> r \<in> set (chunk_ranges c sz start) \<Longrightarrow> start \<le> fst r \<and> fst r \<le> snd r"
proof (induction c sz start rule: chunk_ranges.induct)
  case (1 c sz start)
  show ?case
  proof (cases "start < sz")
    case False
    then show ?thesis
      using "1.prems" by (subst (asm) chunk_ranges.simps) simp
  next
    case True
    let ?e = "min (start + c) sz"
    have "chunk_ranges c sz start = (start, ?e) # chunk_ranges c sz (?e + 1)"
      using True "1.prems" by (subst chunk_ranges.simps) simp
    then have "r = (start, ?e) \<or> r \<in> set (chunk_ranges c sz (?e + 1))"
      using "1.prems"(2) by simp
    then show ?thesis
    proof
      assume "r = (start, ?e)"
      then show ?thesis using True "1.prems"(1) by simp
    next
      assume "r \<in> set (chunk_ranges c sz (?e + 1))"
      then have "?e + 1 \<le> fst r \<and> fst r \<le> snd r"
        using "1.IH" True "1.prems"(1) by simp
      moreover have "start \<le> ?e" using True "1.prems"(1) by simp
      ultimately show ?thesis by linarith
    qed
  qed
qed

lemma chunk_ranges_ascending:
  "0 \<le> c \<Longrightarrow> sorted_wrt (\<lambda>a b. snd a < fst b) (chunk_ranges c sz start)"
proof (induction c sz start rule: chunk_ranges.induct)
  case (1 c sz start)
  show ?case
  proof (cases "start < sz")
    case False
    then show ?thesis by (subst chunk_ranges.simps) simp
  next
    case True
    let ?e = "min (start + c) sz"
    have r: "chunk_ranges c sz start = (start, ?e) # chunk_ranges c sz (?e + 1)"
      using True "1.prems" by (subst chunk_ranges.simps) simp
    have "\<forall>b \<in> set (chunk_ranges c sz (?e + 1)). ?e < fst b"
    proof
      fix b
      assume "b \<in> set (chunk_ranges c sz (?e + 1))"
      from chunk_ranges_from [OF "1.prems" this] show "?e < fst b" by linarith
    qed
    moreover have "sorted_wrt (\<lambda>a b. snd a < fst b) (chunk_ranges c sz (?e + 1))"
      using "1.IH" True "1.prems" by simp
    ultimately show ?thesis by (simp add: r)
  qed
qed

subsection \<open>Reassembly in the order of the channels\<close>

lemma io_Copy_rw_unbounded:
  "room rw = None \<Longrightarrow>
   \<exists>rw'. io_Copy_rw rw (BufferBacked b) w = (rw', True, buffers_Put [] w) \<and>
         written rw' = written rw @ b \<and> room rw' = None"
  by (simp add: io_Copy_rw_def Write_def WriteHeader_def Let_def)

lemma fetchedE:
  assumes "fetched b g"
  obtains re resp where "g = Sending re" "err re = None" "response re = Some resp"
    "Body resp = BufferBacked b"
  using assms by (auto simp: fetched_def split: goroutine.splits option.splits)

lemma fetched_not_Running [simp]: "\<not> fetched b (Running r)"
  by (simp add: fetched_def)

lemma reassemble_settles:
  assumes "length bodies = length reqs"
  shows "waiting_for reqs bodies i gs \<Longrightarrow> room rw = None \<Longrightarrow>
    s' = reassemble gs [i..<length reqs] rw w \<Longrightarrow>
    \<exists>j. i \<le> j \<and>
      waiting_for reqs bodies j (chans s') \<and>
      todo s' = [j..<length reqs] \<and>
      room (writer s') = None \<and>
      written (writer s') = written rw @ concat (map ((!) bodies) [i..<j]) \<and>
      (if j = length reqs then outcome s' = Returned
       else outcome s' = Waiting \<and> chans s' ! j = Running (reqs ! j)) \<and>
      (\<forall>k r. k < length reqs \<and> chans s' ! k = Running r \<longrightarrow> gs ! k = Running r)"
proof (induction "length reqs - i" arbitrary: i gs rw w s')
  case 0
  then have i: "i = length reqs" by (simp add: waiting_for_def)
  show ?case
    using "0.prems" by (intro exI [of _ i]) (simp add: i)
next
  case (Suc d)
  then have lt: "i < length reqs" by simp
  have upt: "[i..<length reqs] = i # [Suc i..<length reqs]"
    using lt by (simp add: upt_conv_Cons)
  have len: "length gs = length reqs"
    using Suc.prems(1) by (simp add: waiting_for_def)
  from Suc.prems(1) lt have "gs ! i = Running (reqs ! i) \<or> fetched (bodies ! i) (gs ! i)"
    by (simp add: waiting_for_def)
  then show ?case
  proof
    assume run: "gs ! i = Running (reqs ! i)"
    have "s' = \<lparr>chans = gs, todo = [i..<length reqs], outcome = Waiting, writer = rw, store = w\<rparr>"
      using Suc.prems(3) by (simp add: upt run)
    then show ?thesis
      using Suc.prems(1,2) lt run by (intro exI [of _ i]) simp
  next
    assume "fetched (bodies ! i) (gs ! i)"
    then obtain re resp where got: "gs ! i = Sending re" "err re = None"
      "response re = Some resp" "Body resp = BufferBacked (bodies ! i)"
      by (rule fetchedE)
    from io_Copy_rw_unbounded [OF Suc.prems(2), of "bodies ! i" w]
    obtain rw' where rw': "io_Copy_rw rw (BufferBacked (bodies ! i)) w = (rw', True, buffers_Put [] w)"
      "written rw' = written rw @ bodies ! i" "room rw' = None" by blast
    let ?gs = "gs[i := Delivered]"
    let ?w = "Body_Close (BufferBacked (bodies ! i)) (buffers_Put [] w)"
    have step: "s' = reassemble ?gs [Suc i..<length reqs] rw' ?w"
      using Suc.prems(3) by (simp add: upt got rw')
    have wf: "waiting_for reqs bodies (Suc i) ?gs"
      using Suc.prems(1) lt len by (auto simp: waiting_for_def nth_list_update less_Suc_eq)
    have d: "d = length reqs - Suc i" using Suc.hyps(2) by simp
    from Suc.hyps(1) [OF d wf rw'(3) step]
    obtain j where j: "Suc i \<le> j"
      "waiting_for reqs bodies j (chans s')"
      "todo s' = [j..<length reqs]"
      "room (writer s') = None"
      "written (writer s') = written rw' @ concat (map ((!) bodies) [Suc i..<j])"
      "if j = length reqs then outcome s' = Returned
       else outcome s' = Waiting \<and> chans s' ! j = Running (reqs ! j)"
      "\<forall>k r. k < length reqs \<and> chans s' ! k = Running r \<longrightarrow> ?gs ! k = Running r"
      by blast
    have "[i..<j] = i # [Suc i..<j]"
      using j(1) by (simp add: upt_conv_Cons)
    then have wr: "written (writer s') = written rw @ concat (map ((!) bodies) [i..<j])"
      by (simp add: j(5) rw'(2))
    have keep: "\<forall>k r. k < length reqs \<and> ?gs ! k = Running r \<longrightarrow> gs ! k = Running r"
      using len lt by (auto simp: nth_list_update split: if_splits)
    have last: "\<forall>k r. k < length reqs \<and> chans s' ! k = Running r \<longrightarrow> gs ! k = Running r"
      using j(7) keep by blast
    have "i \<le> j" using j(1) by simp
    then show ?thesis
      using j(2,3,4,6) wr last by blast
  qed
qed

lemma complete_keeps:
  assumes ok: "\<forall>k<length reqs. \<forall>v. fetched (bodies ! k) (Sending (fst (retryRequest rf (reqs ! k) v)))"
    and wf: "waiting_for reqs bodies i (chans s)"
  shows "waiting_for reqs bodies i (chans (complete rf k s)) \<and>
    todo (complete rf k s) = todo s \<and> outcome (complete rf k s) = outcome s \<and>
    writer (complete rf k s) = writer s \<and>
    (\<forall>k' r. k' < length reqs \<and> chans (complete rf k s) ! k' = Running r \<longrightarrow>
       chans s ! k' = Running r \<and> k' \<noteq> k)"
proof (cases "k < length (chans s)")
  case False
  then have "complete rf k s = s" by (simp add: complete_def)
  moreover have "length (chans s) = length reqs" using wf by (simp add: waiting_for_def)
  ultimately show ?thesis using wf False by auto
next
  case True
  have len: "length (chans s) = length reqs" using wf by (simp add: waiting_for_def)
  show ?thesis
  proof (cases "chans s ! k")
    case (Running req)
    have "\<not> k < i" using wf Running by (auto simp: waiting_for_def)
    then have "chans s ! k = Running (reqs ! k) \<or> fetched (bodies ! k) (chans s ! k)"
      using wf True len by (simp add: waiting_for_def)
    then have req: "req = reqs ! k" using Running by simp
    obtain re v where rv: "retryRequest rf req (store s) = (re, v)"
      by (cases "retryRequest rf req (store s)")
    have c: "complete rf k s = s\<lparr>chans := (chans s)[k := Sending re], store := v\<rparr>"
      using True Running rv by (simp add: complete_def)
    have "fetched (bodies ! k) (Sending (fst (retryRequest rf (reqs ! k) (store s))))"
      using ok True len by simp
    then have f: "fetched (bodies ! k) (Sending re)" using rv req by simp
    have "waiting_for reqs bodies i ((chans s)[k := Sending re])"
      using wf f True \<open>\<not> k < i\<close> by (auto simp: waiting_for_def nth_list_update)
    moreover have "\<forall>k' r. k' < length reqs \<and> (chans s)[k := Sending re] ! k' = Running r \<longrightarrow>
        chans s ! k' = Running r \<and> k' \<noteq> k"
      using True by (auto simp: nth_list_update split: if_splits)
    ultimately show ?thesis by (simp add: c)
  next
    case (Sending re)
    then have "complete rf k s = s" using True by (simp add: complete_def)
    then show ?thesis using wf Sending by auto
  next
    case Delivered
    then have "complete rf k s = s" using True by (simp add: complete_def)
    then show ?thesis using wf Delivered by auto
  qed
qed

lemma upt_split: "i \<le> j \<Longrightarrow> [0..<j] = [0..<i] @ [i..<j]"
  by (metis le_add_diff_inverse upt_add_eq_append zero_le)

lemma step_settles:
  assumes len: "length bodies = length reqs"
    and ok: "\<forall>k<length reqs. \<forall>v. fetched (bodies ! k) (Sending (fst (retryRequest rf (reqs ! k) v)))"
    and st: "settled reqs bodies before i s"
  shows "\<exists>j. i \<le> j \<and> settled reqs bodies before j (receive (complete rf k s)) \<and>
    (\<forall>k' r. k' < length reqs \<and> chans (receive (complete rf k s)) ! k' = Running r \<longrightarrow>
       chans s ! k' = Running r \<and> k' \<noteq> k)"
proof -
  let ?c = "complete rf k s"
  have wf: "waiting_for reqs bodies i (chans s)" using st by (simp add: settled_def)
  from complete_keeps [OF ok wf, of k]
  have c: "waiting_for reqs bodies i (chans ?c)" "todo ?c = todo s" "outcome ?c = outcome s"
    "writer ?c = writer s"
    "\<forall>k' r. k' < length reqs \<and> chans ?c ! k' = Running r \<longrightarrow> chans s ! k' = Running r \<and> k' \<noteq> k"
    by blast+
  show ?thesis
  proof (cases "i = length reqs")
    case True
    then have "outcome s = Returned" using st by (simp add: settled_def)
    then have r: "receive ?c = ?c" using c(3) by (simp add: receive_def)
    have "settled reqs bodies before i ?c"
      using st c True by (simp add: settled_def)
    then show ?thesis using r c(5) by auto
  next
    case False
    then have w: "outcome s = Waiting" using st by (simp add: settled_def)
    have t: "todo s = [i..<length reqs]" "room (writer s) = None"
      "written (writer s) = before @ concat (map ((!) bodies) [0..<i])"
      using st by (simp_all add: settled_def)
    have r: "receive ?c = reassemble (chans ?c) [i..<length reqs] (writer s) (store ?c)"
      using w c t by (simp add: receive_def)
    from reassemble_settles [OF len c(1) t(2) r]
    obtain j where j: "i \<le> j"
      "waiting_for reqs bodies j (chans (receive ?c))"
      "todo (receive ?c) = [j..<length reqs]"
      "room (writer (receive ?c)) = None"
      "written (writer (receive ?c)) = written (writer s) @ concat (map ((!) bodies) [i..<j])"
      "if j = length reqs then outcome (receive ?c) = Returned
       else outcome (receive ?c) = Waiting \<and> chans (receive ?c) ! j = Running (reqs ! j)"
      "\<forall>k' r. k' < length reqs \<and> chans (receive ?c) ! k' = Running r \<longrightarrow> chans ?c ! k' = Running r"
      by blast
    have "written (writer (receive ?c)) = before @ concat (map ((!) bodies) [0..<j])"
      using j(5) t(3) upt_split [OF j(1)] by simp
    then have "settled reqs bodies before j (receive ?c)"
      using j(2,3,4,6) by (simp add: settled_def)
    moreover have "\<forall>k' r. k' < length reqs \<and> chans (receive ?c) ! k' = Running r \<longrightarrow>
        chans s ! k' = Running r \<and> k' \<noteq> k"
      using j(7) c(5) by blast
    ultimately show ?thesis using j(1) by blast
  qed
qed

lemma run_settles:
  assumes len: "length bodies = length reqs"
    and ok: "\<forall>k<length reqs. \<forall>v. fetched (bodies ! k) (Sending (fst (retryRequest rf (reqs ! k) v)))"
  shows "settled reqs bodies before i s \<Longrightarrow>
    \<exists>j. i \<le> j \<and> settled reqs bodies before j (run rf order s) \<and>
      (\<forall>k r. k < length reqs \<and> chans (run rf order s) ! k = Running r \<longrightarrow>
         chans s ! k = Running r \<and> k \<notin> set order)"
proof (induction order arbitrary: i s)
  case Nil
  then show ?case by auto
next
  case (Cons k0 order)
  from step_settles [OF len ok Cons.prems, of k0]
  obtain j1 where j1: "i \<le> j1" "settled reqs bodies before j1 (receive (complete rf k0 s))"
    "\<forall>k' r. k' < length reqs \<and> chans (receive (complete rf k0 s)) ! k' = Running r \<longrightarrow>
       chans s ! k' = Running r \<and> k' \<noteq> k0"
    by blast
  from Cons.IH [OF j1(2)]
  obtain j where j: "j1 \<le> j"
    "settled reqs bodies before j (run rf order (receive (complete rf k0 s)))"
    "\<forall>k r. k < length reqs \<and> chans (run rf order (receive (complete rf k0 s))) ! k = Running r \<longrightarrow>
       chans (receive (complete rf k0 s)) ! k = Running r \<and> k \<notin> set order"
    by blast
  have "i \<le> j" using j1(1) j(1) by simp
  moreover have "settled reqs bodies before j (run rf (k0 # order) s)"
    using j(2) by simp
  moreover have "\<forall>k r. k < length reqs \<and> chans (run rf (k0 # order) s) ! k = Running r \<longrightarrow>
       chans s ! k = Running r \<and> k \<notin> set (k0 # order)"
  proof (intro allI impI)
    fix k r
    assume a: "k < length reqs \<and> chans (run rf (k0 # order) s) ! k = Running r"
    then have "chans (receive (complete rf k0 s)) ! k = Running r \<and> k \<notin> set order"
      using j(3) by simp
    moreover from this a have "chans s ! k = Running r \<and> k \<noteq> k0"
      using j1(3) by blast
    ultimately show "chans s ! k = Running r \<and> k \<notin> set (k0 # order)" by simp
  qed
  ultimately show ?case by blast
qed

lemma handleRefracted_settles:
  assumes "url_ok rf url"
    and "response (fst (retryRequest rf (probe_request url) w)) = Some probe"
    and "chunk_loop rf url (ContentLength probe) 0 [] = Some (launched, True)"
    and "length bodies = length launched"
    and "\<forall>k<length launched.
           fetched (bodies ! k) (Sending (fst (retryRequest rf (snd (launched ! k)) idle)))"
    and "room rw = None"
    and "set order = {..<length launched}"
  shows "\<exists>s. handleRefracted rf url order rw w = Some s \<and>
    settled (map snd launched) bodies (written rw) (length launched) s"
proof -
  let ?reqs = "map snd launched"
  let ?rw = "rw\<lparr>rw_header := Header_Add (rw_header rw) ''content-length''
                               (Sprint (ContentLength probe))\<rparr>"
  let ?s0 = "\<lparr>chans = map (Running \<circ> snd) launched, todo = [0..<length launched],
              outcome = Waiting, writer = ?rw,
              store = snd (retryRequest rf (probe_request url) w)\<rparr>"
  have len: "length bodies = length ?reqs" using assms(4) by simp
  have ok: "\<forall>k<length ?reqs. \<forall>v.
      fetched (bodies ! k) (Sending (fst (retryRequest rf (?reqs ! k) v)))"
  proof (intro allI impI)
    fix k v
    assume "k < length ?reqs"
    then have "fetched (bodies ! k) (Sending (fst (retryRequest rf (snd (launched ! k)) idle)))"
      and "?reqs ! k = snd (launched ! k)"
      using assms(5) by simp_all
    then show "fetched (bodies ! k) (Sending (fst (retryRequest rf (?reqs ! k) v)))"
      using retryRequest_fst_indep [of rf "snd (launched ! k)" v idle] by simp
  qed
  have h: "handleRefracted rf url order rw w = Some (run rf order (receive ?s0))"
    by (rule handleRefracted_launched [OF assms(1,2,3)])
  have wf: "waiting_for ?reqs bodies 0 (chans ?s0)"
    by (simp add: waiting_for_def)
  have r: "receive ?s0 = reassemble (chans ?s0) [0..<length ?reqs] ?rw (store ?s0)"
    by (simp add: receive_def)
  have room: "room ?rw = None" using assms(6) by simp
  from reassemble_settles [OF len wf room r]
  obtain j0 where j0: "waiting_for ?reqs bodies j0 (chans (receive ?s0))"
    "todo (receive ?s0) = [j0..<length ?reqs]"
    "room (writer (receive ?s0)) = None"
    "written (writer (receive ?s0)) = written ?rw @ concat (map ((!) bodies) [0..<j0])"
    "if j0 = length ?reqs then outcome (receive ?s0) = Returned
     else outcome (receive ?s0) = Waiting \<and> chans (receive ?s0) ! j0 = Running (?reqs ! j0)"
    by blast
  have "settled ?reqs bodies (written rw) j0 (receive ?s0)"
    using j0 by (simp add: settled_def)
  from run_settles [OF len ok this, of order]
  obtain j where j: "settled ?reqs bodies (written rw) j (run rf order (receive ?s0))"
    "\<forall>k r. k < length ?reqs \<and> chans (run rf order (receive ?s0)) ! k = Running r \<longrightarrow>
       k \<notin> set order"
    by blast
  let ?s = "run rf order (receive ?s0)"
  have "j = length ?reqs"
  proof (rule ccontr)
    assume ne: "j \<noteq> length ?reqs"
    then have "chans ?s ! j = Running (?reqs ! j)" and "j < length ?reqs"
      using j(1) by (simp_all add: settled_def waiting_for_def)
    then have "j \<notin> set order" "j < length launched" using j(2) by auto
    then show False using assms(7) by auto
  qed
  then show ?thesis using h j(1) by simp
qed

text \<open>
  C2. The probe succeeded and the loop launched its fetches; every fetch succeeds,
  the \<open>k\<close>-th with the body \<open>bodies ! k\<close>; the client takes what is written. Then,
  whatever the order in which the fetches complete, the handler returns after it
  has received from every channel, and what it has written is the bodies one after
  the other in the order of the channels, which is the order in which the loop
  launched them, by ascending start.
\<close>

theorem C2_reassembly_in_order:
  assumes "url_ok rf url"
    and "response (fst (retryRequest rf (probe_request url) w)) = Some probe"
    and "chunk_loop rf url (ContentLength probe) 0 [] = Some (launched, True)"
    and "length bodies = length launched"
    and "\<forall>k<length launched.
           fetched (bodies ! k) (Sending (fst (retryRequest rf (snd (launched ! k)) idle)))"
    and "room rw = None"
    and "set order = {..<length launched}"
  shows "\<exists>s. handleRefracted rf url order rw w = Some s \<and> outcome s = Returned \<and>
    todo s = [] \<and> (\<forall>k<length launched. chans s ! k = Delivered) \<and>
    written (writer s) = written rw @ concat bodies"
proof -
  from handleRefracted_settles [OF assms]
  obtain s where s: "handleRefracted rf url order rw w = Some s"
    and st: "settled (map snd launched) bodies (written rw) (length launched) s"
    by blast
  have 1: "outcome s = Returned" and 2: "todo s = []"
    using st by (simp_all add: settled_def)
  have 3: "\<forall>k<length launched. chans s ! k = Delivered"
    using st by (simp add: settled_def waiting_for_def)
  have "map ((!) bodies) [0..<length bodies] = bodies"
    by (rule map_nth)
  then have 4: "written (writer s) = written rw @ concat bodies"
    using st assms(4) by (simp add: settled_def)
  show ?thesis
    using s 1 2 3 4 by blast
qed

theorem C2_reassembly_in_order_witness:
  "handleRefracted (six (\<lambda>r. False)) ''/pkg.tar'' [1, 0] fresh idle \<noteq> None \<and>
   outcome (the (handleRefracted (six (\<lambda>r. False)) ''/pkg.tar'' [1, 0] fresh idle)) = Returned \<and>
   written (writer (the (handleRefracted (six (\<lambda>r. False)) ''/pkg.tar'' [1, 0] fresh idle))) =
     [1, 2, 3, 4, 5, 6]"
proof -
  let ?rf = "six (\<lambda>r. False)"
  have 1: "url_ok ?rf ''/pkg.tar''" by (simp add: six_def)
  have 2: "response (fst (retryRequest ?rf (probe_request ''/pkg.tar'') idle)) =
      Some \<lparr>StatusCode = 200, ContentLength = 6, Body = ClosedUpstream\<rparr>"
    by (simp add: six_probe)
  have 3: "chunk_loop ?rf ''/pkg.tar''
      (ContentLength \<lparr>StatusCode = 200, ContentLength = 6, Body = ClosedUpstream\<rparr>) 0 [] =
      Some ([((0, 3), first_chunk), ((4, 6), second_chunk)], True)"
    by (simp add: six_loop)
  have 4: "length [[1, 2, 3, 4], [5, 6::byte]] =
      length [((0::int, 3::int), first_chunk), ((4, 6), second_chunk)]"
    by simp
  have 5: "\<forall>k<length [((0::int, 3::int), first_chunk), ((4, 6), second_chunk)].
      fetched ([[1, 2, 3, 4], [5, 6]] ! k)
        (Sending (fst (retryRequest ?rf
           (snd ([((0::int, 3::int), first_chunk), ((4, 6), second_chunk)] ! k)) idle)))"
    by (simp add: less_Suc_eq six_first_ok six_second_ok fetched_def numeral_2_eq_2)
  have 6: "room fresh = None" by (simp add: fresh_def)
  have 7: "set [1, 0::nat] = {..<length [((0::int, 3::int), first_chunk), ((4, 6), second_chunk)]}"
    by auto
  from C2_reassembly_in_order [OF 1 2 3 4 5 6 7]
  show ?thesis by (auto simp: fresh_def)
qed

text \<open>
  Splitting and reassembling gives the resource back: when the mirrors answer every
  range the loop asks for with the bytes of that range, what the handler writes is
  the resource \<open>d\<close>.
\<close>

lemma refracted_round_trip:
  assumes "url_ok rf url" and "0 \<le> ChunkSize (config rf)"
    and "response (fst (retryRequest rf (probe_request url) w)) = Some probe"
    and "ContentLength probe = int (length d)"
    and "int (length d) + ChunkSize (config rf) + 1 < 2 ^ 63"
    and "\<forall>c \<in> set (chunk_ranges (ChunkSize (config rf)) (int (length d)) 0).
           fetched (byte_range d c)
             (Sending (fst (retryRequest rf (ranged_request (plain_request url) c) idle)))"
    and "room rw = None"
    and "set order = {..<length (chunk_ranges (ChunkSize (config rf)) (int (length d)) 0)}"
  shows "\<exists>s. handleRefracted rf url order rw w = Some s \<and> outcome s = Returned \<and>
    written (writer s) = written rw @ d"
proof -
  let ?rs = "chunk_ranges (ChunkSize (config rf)) (int (length d)) 0"
  let ?launched = "map (\<lambda>c. (c, ranged_request (plain_request url) c)) ?rs"
  let ?bodies = "map (byte_range d) ?rs"
  have 3: "chunk_loop rf url (ContentLength probe) 0 [] = Some (?launched, True)"
    using chunk_loop_ranges [OF assms(1,2), of 0 "int (length d)" "[]"] assms(4,5) by simp
  have 4: "length ?bodies = length ?launched" by simp
  have 5: "\<forall>k<length ?launched.
      fetched (?bodies ! k) (Sending (fst (retryRequest rf (snd (?launched ! k)) idle)))"
    using assms(6) by simp
  have 7: "set order = {..<length ?launched}" using assms(8) by simp
  from handleRefracted_settles [OF assms(1,3) 3 4 5 assms(7) 7]
  obtain s where s: "handleRefracted rf url order rw w = Some s"
    and st: "settled (map snd ?launched) ?bodies (written rw) (length ?launched) s"
    by blast
  have "map ((!) ?bodies) [0..<length ?bodies] = ?bodies"
    by (rule map_nth)
  then have "written (writer s) = written rw @ concat ?bodies"
    using st by (simp add: settled_def)
  moreover have "concat ?bodies = d"
    using byte_ranges_cover [OF assms(2), of 0 d] by simp
  moreover have "outcome s = Returned"
    using st by (simp add: settled_def)
  ultimately show ?thesis using s by simp
qed

subsection \<open>A chunk that fails\<close>

lemma six_first_refused:
  "handleRefracted (six (\<lambda>r. r = first_chunk)) ''/pkg.tar'' [1, 0] fresh idle =
     Some \<lparr>chans = [Delivered,
                    Sending \<lparr>err = None,
                       response = Some \<lparr>StatusCode = 206, ContentLength = 2,
                                        Body = BufferBacked [5, 6]\<rparr>\<rparr>],
           todo = [1], outcome = Returned,
           writer = \<lparr>status = Some 500, rw_header = [(''content-length'', ''6'')],
                     written = [], room = None\<rparr>,
           store = \<lparr>buffers = [],
                    events = [EvDo (probe_request ''/pkg.tar''), EvClose,
                              EvDo second_chunk, EvGet, EvReset, EvCopy 2, EvClose] @
                             replicate 5 (EvDo first_chunk)\<rparr>\<rparr>"
proof -
  let ?rf = "six (\<lambda>r. r = first_chunk)"
  have u: "url_ok ?rf ''/pkg.tar''" by (simp add: six_def)
  have p: "\<not> (\<lambda>r. r = first_chunk) (probe_request ''/pkg.tar'')"
    by (simp add: first_chunk_def probe_request_def)
  have s: "\<not> (\<lambda>r. r = first_chunk) second_chunk"
    by (simp add: first_chunk_def second_chunk_def)
  have f: "(\<lambda>r. r = first_chunk) first_chunk" by simp
  note probe = six_probe [of "\<lambda>r. r = first_chunk", OF p]
  have 1: "response (fst (retryRequest ?rf (probe_request ''/pkg.tar'') idle)) =
      Some \<lparr>StatusCode = 200, ContentLength = 6, Body = ClosedUpstream\<rparr>"
    by (simp add: probe)
  have 2: "chunk_loop ?rf ''/pkg.tar''
      (ContentLength \<lparr>StatusCode = 200, ContentLength = 6, Body = ClosedUpstream\<rparr>) 0 [] =
      Some ([((0, 3), first_chunk), ((4, 6), second_chunk)], True)"
    by (simp add: six_loop)
  show ?thesis
    unfolding handleRefracted_launched [OF u 1 2] probe
    by (simp add: receive_def complete_def six_second_ok [of "\<lambda>r. r = first_chunk", OF s]
        six_down [of "\<lambda>r. r = first_chunk", OF f] retries_def
        fresh_def idle_def Header_Add_def Sprint_def digits.simps digit_char_def
        WriteHeader_def StatusInternalServerError_def numeral_eq_Suc)
qed

lemma six_second_refused:
  "handleRefracted (six (\<lambda>r. r = second_chunk)) ''/pkg.tar'' [1, 0] fresh idle =
     Some \<lparr>chans = [Delivered, Delivered], todo = [], outcome = Returned,
           writer = \<lparr>status = Some 200, rw_header = [(''content-length'', ''6'')],
                     written = [1, 2, 3, 4], room = None\<rparr>,
           store = \<lparr>buffers = [[]],
                    events = [EvDo (probe_request ''/pkg.tar''), EvClose] @
                             replicate 5 (EvDo second_chunk) @
                             [EvDo first_chunk, EvGet, EvReset, EvCopy 4, EvClose, EvPut]\<rparr>\<rparr>"
proof -
  let ?rf = "six (\<lambda>r. r = second_chunk)"
  have u: "url_ok ?rf ''/pkg.tar''" by (simp add: six_def)
  have p: "\<not> (\<lambda>r. r = second_chunk) (probe_request ''/pkg.tar'')"
    by (simp add: second_chunk_def probe_request_def)
  have s: "\<not> (\<lambda>r. r = second_chunk) first_chunk"
    by (simp add: first_chunk_def second_chunk_def)
  have f: "(\<lambda>r. r = second_chunk) second_chunk" by simp
  note probe = six_probe [of "\<lambda>r. r = second_chunk", OF p]
  have 1: "response (fst (retryRequest ?rf (probe_request ''/pkg.tar'') idle)) =
      Some \<lparr>StatusCode = 200, ContentLength = 6, Body = ClosedUpstream\<rparr>"
    by (simp add: probe)
  have 2: "chunk_loop ?rf ''/pkg.tar''
      (ContentLength \<lparr>StatusCode = 200, ContentLength = 6, Body = ClosedUpstream\<rparr>) 0 [] =
      Some ([((0, 3), first_chunk), ((4, 6), second_chunk)], True)"
    by (simp add: six_loop)
  show ?thesis
    unfolding handleRefracted_launched [OF u 1 2] probe
    by (simp add: receive_def complete_def six_first_ok [of "\<lambda>r. r = second_chunk", OF s]
        six_down [of "\<lambda>r. r = second_chunk", OF f] retries_def
        fresh_def idle_def Header_Add_def Sprint_def digits.simps digit_char_def
        WriteHeader_def Write_def io_Copy_rw_def buffers_Put_def emit_def Body_Close_def
        StatusInternalServerError_def StatusOK_def numeral_eq_Suc)
qed

lemma io_Copy_rw_status:
  "status rw \<noteq> Some StatusBadGateway \<Longrightarrow>
   status (fst (io_Copy_rw rw b w)) \<noteq> Some StatusBadGateway"
  by (auto simp: io_Copy_rw_def Write_def WriteHeader_def Let_def StatusOK_def
      StatusBadGateway_def split: body.split option.split)

lemma reassemble_no_502:
  "status rw \<noteq> Some StatusBadGateway \<Longrightarrow>
   status (writer (reassemble gs ks rw w)) \<noteq> Some StatusBadGateway"
proof (induction ks arbitrary: gs rw w)
  case Nil
  then show ?case by simp
next
  case (Cons k ks)
  show ?case
  proof (cases "gs ! k")
    case (Running req)
    then show ?thesis using Cons.prems by simp
  next
    case Delivered
    then show ?thesis using Cons.prems by simp
  next
    case (Sending re)
    show ?thesis
    proof (cases "err re \<noteq> None")
      case True
      then show ?thesis
        using Sending Cons.prems
        by (simp add: WriteHeader_def StatusInternalServerError_def StatusBadGateway_def)
    next
      case False
      show ?thesis
      proof (cases "response re")
        case None
        then show ?thesis using Sending False Cons.prems by simp
      next
        case (Some resp)
        obtain rw' ok w' where c: "io_Copy_rw rw (Body resp) w = (rw', ok, w')"
          by (cases "io_Copy_rw rw (Body resp) w")
        have rw': "status rw' \<noteq> Some StatusBadGateway"
          using io_Copy_rw_status [OF Cons.prems, of "Body resp" w] c by simp
        show ?thesis
        proof (cases ok)
          case True
          then show ?thesis
            using Sending False Some c Cons.IH [OF rw'] by simp
        next
          case False
          then show ?thesis
            using Sending \<open>\<not> err re \<noteq> None\<close> Some c rw'
            by (simp add: WriteHeader_def StatusInternalServerError_def StatusBadGateway_def)
        qed
      qed
    qed
  qed
qed

lemma run_no_502:
  "status (writer s) \<noteq> Some StatusBadGateway \<Longrightarrow>
   status (writer (run rf order s)) \<noteq> Some StatusBadGateway"
proof (induction order arbitrary: s)
  case Nil
  then show ?case by simp
next
  case (Cons k order)
  have "writer (complete rf k s) = writer s"
    by (simp add: complete_def split: goroutine.split prod.split)
  then have "status (writer (receive (complete rf k s))) \<noteq> Some StatusBadGateway"
    using Cons.prems by (simp add: receive_def reassemble_no_502)
  from Cons.IH [OF this] show ?case by simp
qed

text \<open>
  \<^verbatim>\<open>handleRefracted\<close> never answers 502: the only status it writes is 500, and a body
  that was begun has committed 200.
\<close>

lemma handleRefracted_never_502:
  assumes "handleRefracted rf url order rw w = Some s"
    and "status rw \<noteq> Some StatusBadGateway"
  shows "status (writer s) \<noteq> Some StatusBadGateway"
proof (cases "url_ok rf url")
  case False
  then show ?thesis
    using assms
    by (auto simp: handleRefracted_bad_url finish_def WriteHeader_def StatusBadGateway_def
        StatusInternalServerError_def split: if_splits)
next
  case True
  obtain br v where br: "retryRequest rf (probe_request url) w = (br, v)"
    by (cases "retryRequest rf (probe_request url) w")
  show ?thesis
  proof (cases "response br")
    case None
    then show ?thesis
      using assms True br handleRefracted_probe_failed [of rf url w order rw]
      by (auto simp: finish_def)
  next
    case (Some probe)
    show ?thesis
    proof (cases "chunk_loop rf url (ContentLength probe) 0 []")
      case None
      then show ?thesis
        using assms(1) True br Some
        by (simp add: handleRefracted_def NewRequest_def probe_request_def Header_Add_def)
    next
      case (Some a)
      obtain launched built where a: "a = (launched, built)" by (cases a)
      have "status (writer (receive
          \<lparr>chans = map (Running \<circ> snd) launched, todo = [0..<length launched],
           outcome = Waiting,
           writer = rw\<lparr>rw_header := Header_Add (rw_header rw) ''content-length''
                                      (Sprint (ContentLength probe))\<rparr>,
           store = v\<rparr>)) \<noteq> Some StatusBadGateway"
        using assms(2) by (simp add: receive_def reassemble_no_502)
      moreover have "status (WriteHeader rw StatusInternalServerError) \<noteq> Some StatusBadGateway"
        using assms(2)
        by (simp add: WriteHeader_def StatusInternalServerError_def StatusBadGateway_def)
      ultimately show ?thesis
        using assms(1) True br \<open>response br = Some probe\<close> Some a
        by (auto simp: handleRefracted_def NewRequest_def probe_request_def Header_Add_def
            intro!: run_no_502 split: if_splits)
    qed
  qed
qed

text \<open>
  C4: the code does not do what the claim says. When the fetch of the first chunk
  fails on all five attempts, the status the client sees is 500, not 502; when the
  fetch of the second chunk fails after the first chunk was written, the status is
  the 200 that the first write committed, and the later \<^verbatim>\<open>WriteHeader\<close> changes
  nothing. In both cases nothing is written after the chunks already written.
\<close>

theorem C4_chunk_failure_status:
  "map_option (\<lambda>s. (outcome s, status (writer s), written (writer s)))
     (handleRefracted (six (\<lambda>r. r = first_chunk)) ''/pkg.tar'' [1, 0] fresh idle) =
     Some (Returned, Some 500, []) \<and>
   map_option (\<lambda>s. (outcome s, status (writer s), written (writer s)))
     (handleRefracted (six (\<lambda>r. r = second_chunk)) ''/pkg.tar'' [1, 0] fresh idle) =
     Some (Returned, Some 200, [1, 2, 3, 4])"
  unfolding six_first_refused six_second_refused by simp

subsection \<open>Fetches the handler no longer waits for\<close>

text \<open>
  Once the handler has returned or panicked, nothing receives from the channels it
  left: a goroutine blocked in its send stays blocked, with the response and the
  buffer it holds, and no buffer comes back to the pool.
\<close>

lemma complete_abandoned:
  assumes "outcome s \<noteq> Waiting"
  shows "outcome (complete rf j s) = outcome s \<and>
    (\<forall>k re. k < length (chans s) \<and> chans s ! k = Sending re \<longrightarrow>
       chans (complete rf j s) ! k = Sending re) \<and>
    length (chans (complete rf j s)) = length (chans s) \<and>
    count_list (events (store (complete rf j s))) EvPut = count_list (events (store s)) EvPut"
proof (cases "j < length (chans s)")
  case False
  then show ?thesis by (simp add: complete_def)
next
  case True
  show ?thesis
  proof (cases "chans s ! j")
    case (Running req)
    obtain re v where rv: "retryRequest rf req (store s) = (re, v)"
      by (cases "retryRequest rf req (store s)")
    from retry_loop_events [of rf req 0 "store s"] rv
    obtain es where es: "events v = events (store s) @ es" "EvPut \<notin> set es"
      by (auto simp: retryRequest_def)
    have c: "complete rf j s = s\<lparr>chans := (chans s)[j := Sending re], store := v\<rparr>"
      using True Running rv by (simp add: complete_def)
    have "count_list es EvPut = 0" using es(2) by (simp add: count_list_0_iff)
    then have "count_list (events v) EvPut = count_list (events (store s)) EvPut"
      using es(1) by simp
    moreover have "\<forall>k re'. k < length (chans s) \<and> chans s ! k = Sending re' \<longrightarrow>
        (chans s)[j := Sending re] ! k = Sending re'"
      using Running True by (auto simp: nth_list_update)
    ultimately show ?thesis by (simp add: c)
  next
    case (Sending re)
    then show ?thesis using True by (simp add: complete_def)
  next
    case Delivered
    then show ?thesis using True by (simp add: complete_def)
  qed
qed

lemma run_abandoned:
  "outcome s \<noteq> Waiting \<Longrightarrow>
   outcome (run rf order s) = outcome s \<and>
   (\<forall>k re. k < length (chans s) \<and> chans s ! k = Sending re \<longrightarrow>
      chans (run rf order s) ! k = Sending re) \<and>
   length (chans (run rf order s)) = length (chans s) \<and>
   count_list (events (store (run rf order s))) EvPut = count_list (events (store s)) EvPut"
proof (induction order arbitrary: s)
  case Nil
  then show ?case by simp
next
  case (Cons j order)
  let ?c = "complete rf j s"
  from complete_abandoned [OF Cons.prems, of rf j]
  have c: "outcome ?c = outcome s"
    "\<forall>k re. k < length (chans s) \<and> chans s ! k = Sending re \<longrightarrow> chans ?c ! k = Sending re"
    "length (chans ?c) = length (chans s)"
    "count_list (events (store ?c)) EvPut = count_list (events (store s)) EvPut"
    by blast+
  have r: "receive ?c = ?c" using c(1) Cons.prems by (simp add: receive_def)
  have "outcome ?c \<noteq> Waiting" using c(1) Cons.prems by simp
  from Cons.IH [OF this]
  have i: "outcome (run rf order ?c) = outcome ?c"
    "\<forall>k re. k < length (chans ?c) \<and> chans ?c ! k = Sending re \<longrightarrow>
       chans (run rf order ?c) ! k = Sending re"
    "length (chans (run rf order ?c)) = length (chans ?c)"
    "count_list (events (store (run rf order ?c))) EvPut = count_list (events (store ?c)) EvPut"
    by blast+
  show ?case
    using c i by (simp add: r)
qed

text \<open>
  C6: the code does not do what the claim says. The fetch of the second chunk
  completes first, with its two bytes in a pooled buffer; then the fetch of the
  first chunk fails and the handler returns. The goroutine of the second chunk is
  left blocked in its send: its channel is never received from, its body is never
  read, and its buffer is never given back (one buffer taken, none returned, the
  pool empty).
\<close>

theorem C6_unconsumed_fetch_blocked:
  "map_option
     (\<lambda>s. (outcome s, todo s, chans s ! 1, buffers (store s),
           count_list (events (store s)) EvGet, count_list (events (store s)) EvPut))
     (handleRefracted (six (\<lambda>r. r = first_chunk)) ''/pkg.tar'' [1, 0] fresh idle) =
   Some (Returned, [1],
         Sending \<lparr>err = None,
                  response = Some \<lparr>StatusCode = 206, ContentLength = 2,
                                   Body = BufferBacked [5, 6]\<rparr>\<rparr>,
         [], 1, 0)"
  unfolding six_first_refused by (simp add: numeral_eq_Suc)

end
